theory Spec2Isabelle
  imports Main "HOL-Library.Word"
begin

unbundle bit_operations_syntax

section \<open>Machine model\<close>

text \<open>
  The allocator of \<^verbatim>\<open>malloc.c\<close> assumes that \<^verbatim>\<open>size_t\<close> and pointers are 8 bytes wide.
  Every load and store of the source has type \<^verbatim>\<open>size_t\<close> or pointer, so the heap is
  modelled at word granularity: a map from the byte address of a word to the 64-bit value
  stored there.  Pointer arithmetic is arithmetic on 64-bit words (it wraps).  Words at
  addresses that are not multiples of 8 are separate cells of the model, while on the
  machine such a word shares bytes with its two neighbours: the model is the program
  where every address read or written is a multiple of 8.  Every address in the concrete
  runs below is one, and the general statements about stores take their addresses to be
  multiples of 8 and speak of the words at such addresses only.

  The two loops over the free list need not terminate (the list may be cyclic), and
  \<^verbatim>\<open>malloc_list_remove\<close> dereferences \<^verbatim>\<open>NULL\<close> when the node is not on the list.  Every
  function that runs such a loop takes a bound on the number of iterations and returns
  \<open>None\<close> when the source does not return normally within that bound.
\<close>

type_synonym size_t = "64 word"
type_synonym addr = "64 word"
type_synonym heap = "addr \<Rightarrow> size_t"

record state =
  mem :: heap                \<comment> \<open>the bytes of the process, one word per address\<close>
  PAGE_SIZE :: size_t        \<comment> \<open>\<^verbatim>\<open>static size_t PAGE_SIZE\<close>\<close>
  flist :: addr              \<comment> \<open>\<^verbatim>\<open>static fnode_t flist\<close>\<close>
  HEAP_START :: addr         \<comment> \<open>\<^verbatim>\<open>static char *HEAP_START\<close>\<close>
  errno :: int
  sc_pagesize :: size_t      \<comment> \<open>the answer of \<^verbatim>\<open>sysconf(_SC_PAGESIZE)\<close>\<close>
  brk :: addr                \<comment> \<open>the program break\<close>
  brk_room :: size_t         \<comment> \<open>bytes the kernel is still willing to grant\<close>
  brk_calls :: nat           \<comment> \<open>how often the break primitive has been called\<close>

definition ENOMEM :: int where
  "ENOMEM = 12"

subsection \<open>Sizes and macros\<close>

definition NODE_SIZE :: size_t where
  "NODE_SIZE = 24"

definition FENCE_SIZE :: size_t where
  "FENCE_SIZE = 8"

definition NODE_OVERHEAD :: size_t where
  "NODE_OVERHEAD = NODE_SIZE + FENCE_SIZE"

definition FENCE_OVERHEAD :: size_t where
  "FENCE_OVERHEAD = 2 * FENCE_SIZE"

definition DIFF_OVERHEAD :: size_t where
  "DIFF_OVERHEAD = NODE_SIZE - FENCE_SIZE"

definition SIZE_T_SIZE :: size_t where
  "SIZE_T_SIZE = 8"

definition SET_USED :: "size_t \<Rightarrow> size_t" where
  "SET_USED x = x OR 1"

definition SET_FREE :: "size_t \<Rightarrow> size_t" where
  "SET_FREE x = x AND NOT 1"

definition ISUSED :: "size_t \<Rightarrow> size_t" where
  "ISUSED x = x AND 1"

definition GETSIZE :: "size_t \<Rightarrow> size_t" where
  "GETSIZE x = push_bit 1 (drop_bit 1 x)"

definition MAX_sz :: "size_t \<Rightarrow> size_t \<Rightarrow> size_t" where
  "MAX_sz x y = (if x > y then x else y)"

definition ROUNDUP_16 :: "size_t \<Rightarrow> size_t" where
  "ROUNDUP_16 x = push_bit 4 (drop_bit 4 (x - 1) + 1)"

definition ROUNDUP_PAGE :: "size_t \<Rightarrow> size_t \<Rightarrow> size_t" where
  "ROUNDUP_PAGE pg x = ((x - 1) div pg + 1) * pg"

definition ROUNDUP_CHUNK :: "size_t \<Rightarrow> size_t" where
  "ROUNDUP_CHUNK x = ROUNDUP_16 (MAX_sz x DIFF_OVERHEAD + FENCE_OVERHEAD)"

definition FENCE_BACKWARD :: "addr \<Rightarrow> addr" where
  "FENCE_BACKWARD x = x - 8"

text \<open>The fields of \<^verbatim>\<open>struct fnode\<close>: \<^verbatim>\<open>size\<close> at offset 0, \<^verbatim>\<open>prev\<close> at 8, \<^verbatim>\<open>next\<close> at 16.\<close>

abbreviation PREV :: "addr \<Rightarrow> addr" where
  "PREV n \<equiv> n + 8"

abbreviation NEXT :: "addr \<Rightarrow> addr" where
  "NEXT n \<equiv> n + 16"

subsection \<open>The break primitive\<close>

text \<open>
  Modelled from the spec: \<^verbatim>\<open>get_memory\<close> (\<^verbatim>\<open>memreq.c\<close> is not among the sources).  It
  extends the program break by the given number of bytes and returns the previous break,
  or null when the kernel refuses.  The kernel's willingness is the budget \<open>brk_room\<close>;
  every call is counted.
\<close>

definition get_memory :: "state \<Rightarrow> size_t \<Rightarrow> addr \<times> state" where
  "get_memory st n =
     (if n \<le> brk_room st
      then (brk st, st\<lparr>brk := brk st + n, brk_room := brk_room st - n,
                       brk_calls := Suc (brk_calls st)\<rparr>)
      else (0, st\<lparr>brk_calls := Suc (brk_calls st)\<rparr>))"

section \<open>The free-chunk manager\<close>

fun malloc_find_fit :: "nat \<Rightarrow> heap \<Rightarrow> addr \<Rightarrow> size_t \<Rightarrow> addr option" where
  "malloc_find_fit fuel m target sz =
     (if target = 0 then Some target
      else if sz \<le> m target then Some target
      else if fuel = 0 then None
      else malloc_find_fit (fuel - 1) m (m (NEXT target)) sz)"

declare malloc_find_fit.simps [simp del]

definition malloc_fnode_assign_free :: "heap \<Rightarrow> addr \<Rightarrow> size_t \<Rightarrow> heap" where
  "malloc_fnode_assign_free m start sz =
     (let fend = FENCE_BACKWARD (start + sz);
          m1 = m(start := sz);
          m2 = m1(start := SET_FREE (m1 start));
          m3 = m2(fend := m2 start);
          m4 = m3(PREV start := 0)
      in m4(NEXT start := 0))"

definition malloc_fnode_assign_used :: "heap \<Rightarrow> addr \<Rightarrow> size_t \<Rightarrow> heap" where
  "malloc_fnode_assign_used m start sz =
     (let fend = FENCE_BACKWARD (start + sz);
          m1 = m(start := sz);
          m2 = m1(start := SET_USED (m1 start));
          m3 = m2(fend := m2 start);
          m4 = m3(PREV start := 0)
      in m4(NEXT start := 0))"

text \<open>
  \<^verbatim>\<open>malloc_expand\<close>.  A page size of zero makes \<^verbatim>\<open>ROUNDUP_PAGE\<close> divide by zero, which
  traps: no normal return.
\<close>

definition malloc_expand :: "state \<Rightarrow> size_t \<Rightarrow> (addr \<times> state) option" where
  "malloc_expand st sz =
     (let init = (PAGE_SIZE st = 0);
          st1 = (if init then st\<lparr>PAGE_SIZE := sc_pagesize st\<rparr> else st)
      in if PAGE_SIZE st1 = 0 then None
         else
           let sz1 = (if init then ROUNDUP_PAGE (PAGE_SIZE st1) (sz + FENCE_OVERHEAD)
                      else ROUNDUP_PAGE (PAGE_SIZE st1) sz);
               (start, st2) = get_memory st1 sz1
           in if start = 0 then Some (0, st2)
              else if init
              then let m1 = (mem st2)(start := 1);
                       m2 = m1(FENCE_BACKWARD (start + sz1) := 1);
                       start1 = start + FENCE_SIZE;
                       sz2 = sz1 - FENCE_OVERHEAD
                   in Some (start1, st2\<lparr>mem := malloc_fnode_assign_free m2 start1 sz2,
                                        HEAP_START := start1\<rparr>)
              else let m1 = (mem st2)(FENCE_BACKWARD (start + sz1) := 1);
                       start1 = start - FENCE_SIZE
                   in Some (start1, st2\<lparr>mem := malloc_fnode_assign_free m1 start1 sz1\<rparr>))"

fun insert_walk :: "nat \<Rightarrow> heap \<Rightarrow> addr \<Rightarrow> addr \<Rightarrow> addr option" where
  "insert_walk fuel m front item =
     (if m (NEXT front) \<noteq> 0 \<and> m (NEXT front) < item
      then (if fuel = 0 then None else insert_walk (fuel - 1) m (m (NEXT front)) item)
      else Some front)"

declare insert_walk.simps [simp del]

definition link_neighbours :: "heap \<Rightarrow> addr \<Rightarrow> heap" where
  "link_neighbours m item =
     (let m1 = (if m (PREV item) \<noteq> 0 then m(NEXT (m (PREV item)) := item) else m)
      in if m1 (NEXT item) \<noteq> 0 then m1(PREV (m1 (NEXT item)) := item) else m1)"

definition malloc_list_addr_insert :: "nat \<Rightarrow> state \<Rightarrow> addr \<Rightarrow> state option" where
  "malloc_list_addr_insert fuel st item =
     (if flist st = 0 \<or> item < flist st
      then Some (st\<lparr>mem := link_neighbours ((mem st)(PREV item := 0, NEXT item := flist st)) item,
                    flist := item\<rparr>)
      else (case insert_walk fuel (mem st) (flist st) item of
              None \<Rightarrow> None
            | Some front \<Rightarrow>
                let m1 = (mem st)(PREV item := front);
                    m2 = m1(NEXT item := m1 (NEXT front))
                in Some (st\<lparr>mem := link_neighbours m2 item\<rparr>)))"

fun remove_walk :: "nat \<Rightarrow> heap \<Rightarrow> addr \<Rightarrow> addr \<Rightarrow> addr option" where
  "remove_walk fuel m front node =
     (if front = 0 then None
      else if m (NEXT front) \<noteq> node
      then (if fuel = 0 then None else remove_walk (fuel - 1) m (m (NEXT front)) node)
      else Some front)"

declare remove_walk.simps [simp del]

definition malloc_list_remove :: "nat \<Rightarrow> state \<Rightarrow> addr \<Rightarrow> state option" where
  "malloc_list_remove fuel st node =
     (if flist st = node
      then let hd1 = mem st (NEXT node)
           in Some (st\<lparr>mem := (if hd1 \<noteq> 0 then (mem st)(PREV hd1 := 0) else mem st),
                       flist := hd1\<rparr>)
      else (case remove_walk fuel (mem st) (flist st) node of
              None \<Rightarrow> None
            | Some front \<Rightarrow>
                let m1 = (mem st)(NEXT front := mem st (NEXT node))
                in Some (st\<lparr>mem := (if m1 (NEXT front) \<noteq> 0
                                      then m1(PREV (m1 (NEXT front)) := front) else m1)\<rparr>)))"

text \<open>
  The branch of \<^verbatim>\<open>malloc_fnode_split\<close> that carves the remainder: the new node is
  initialised by \<^verbatim>\<open>malloc_fnode_assign_free\<close> and takes over the links of \<open>node\<close>.
\<close>

definition carve_remainder :: "heap \<Rightarrow> addr \<Rightarrow> addr \<Rightarrow> size_t \<Rightarrow> heap" where
  "carve_remainder m node split split_size =
     (let m1 = malloc_fnode_assign_free m split split_size;
          node_new = split;
          m2 = m1(PREV node_new := m1 (PREV node));
          m3 = (if m2 (PREV node_new) \<noteq> 0
                then m2(NEXT (m2 (PREV node_new)) := node_new) else m2);
          m4 = m3(NEXT node_new := m3 (NEXT node))
      in if m4 (NEXT node_new) \<noteq> 0
         then m4(PREV (m4 (NEXT node_new)) := node_new) else m4)"

definition malloc_fnode_split :: "nat \<Rightarrow> state \<Rightarrow> addr \<Rightarrow> size_t \<Rightarrow> (addr \<times> state) option" where
  "malloc_fnode_split fuel st node sz =
     (let start = node;
          split = node + sz;
          split_size = mem st node - sz
      in case (if NODE_OVERHEAD \<le> split_size
               then Some (st\<lparr>mem := carve_remainder (mem st) node split split_size,
                             flist := (if flist st = node then split else flist st)\<rparr>)
               else malloc_list_remove fuel st node) of
           None \<Rightarrow> None
         | Some st1 \<Rightarrow>
             Some (start + FENCE_SIZE,
                   st1\<lparr>mem := malloc_fnode_assign_used (mem st1) start (mem st1 node)\<rparr>))"

definition malloc_fnode_release :: "nat \<Rightarrow> state \<Rightarrow> addr \<Rightarrow> state option" where
  "malloc_fnode_release fuel st target =
     (let m1 = (mem st)(target := SET_FREE (mem st target));
          m2 = malloc_fnode_assign_free m1 target (m1 target)
      in malloc_list_addr_insert fuel (st\<lparr>mem := m2\<rparr>) target)"

section \<open>Public entry points\<close>

text \<open>The mutex serialises the entry points; the model runs one call at a time.\<close>

definition malloc :: "nat \<Rightarrow> state \<Rightarrow> size_t \<Rightarrow> (addr \<times> state) option" where
  "malloc fuel st n =
     (let sz = ROUNDUP_CHUNK n
      in case malloc_find_fit fuel (mem st) (flist st) sz of
           None \<Rightarrow> None
         | Some fit \<Rightarrow>
             if fit = 0
             then (case malloc_expand st sz of
                     None \<Rightarrow> None
                   | Some (fit1, st1) \<Rightarrow>
                       if fit1 \<noteq> 0
                       then (case malloc_list_addr_insert fuel st1 fit1 of
                               None \<Rightarrow> None
                             | Some st2 \<Rightarrow> malloc_fnode_split fuel st2 fit1 sz)
                       else Some (0, st1\<lparr>errno := ENOMEM\<rparr>))
             else malloc_fnode_split fuel st fit sz)"

definition free :: "nat \<Rightarrow> state \<Rightarrow> addr \<Rightarrow> state option" where
  "free fuel st ptr =
     (if ptr \<noteq> 0 then malloc_fnode_release fuel st (FENCE_BACKWARD ptr) else Some st)"

function highest_loop :: "size_t \<Rightarrow> size_t \<Rightarrow> size_t" where
  "highest_loop inp num_bits =
     (if inp \<noteq> 0 then highest_loop (drop_bit 1 inp) (num_bits + 1) else num_bits)"
  by pat_completeness auto
termination
proof (relation "measure (\<lambda>(inp, num_bits). unat inp)")
  show "wf (measure (\<lambda>(inp :: size_t, num_bits :: size_t). unat inp))"
    by simp
next
  fix inp num_bits :: size_t
  assume "inp \<noteq> 0"
  then have "0 < unat inp"
    by (simp add: unat_gt_0)
  then show "((drop_bit 1 inp, num_bits + 1), (inp, num_bits))
             \<in> measure (\<lambda>(inp, num_bits). unat inp)"
    by (simp add: unat_drop_bit_eq drop_bit_eq_div unat_div)
qed

declare highest_loop.simps [simp del]

definition highest :: "size_t \<Rightarrow> size_t" where
  "highest inp = highest_loop inp 0"

text \<open>The zeroing loop of \<^verbatim>\<open>calloc\<close>: \<^verbatim>\<open>while (target != end) *(target++) = 0\<close>.\<close>

fun zero_loop :: "nat \<Rightarrow> heap \<Rightarrow> addr \<Rightarrow> addr \<Rightarrow> heap option" where
  "zero_loop fuel m target fend =
     (if target \<noteq> fend
      then (if fuel = 0 then None
            else zero_loop (fuel - 1) (m(target := 0)) (target + SIZE_T_SIZE) fend)
      else Some m)"

declare zero_loop.simps [simp del]

definition calloc :: "nat \<Rightarrow> state \<Rightarrow> size_t \<Rightarrow> size_t \<Rightarrow> (addr \<times> state) option" where
  "calloc fuel st number sz =
     (if highest number + highest sz > 8 * 8
      then Some (0, st\<lparr>errno := ENOMEM\<rparr>)
      else let number_size = number * sz
           in case malloc fuel st number_size of
                None \<Rightarrow> None
              | Some (ret, st1) \<Rightarrow>
                  if ret \<noteq> 0
                  then (case zero_loop fuel (mem st1) ret
                               (ret + (number_size div SIZE_T_SIZE) * SIZE_T_SIZE) of
                          None \<Rightarrow> None
                        | Some m1 \<Rightarrow> Some (ret, st1\<lparr>mem := m1\<rparr>))
                  else Some (ret, st1))"

text \<open>The copying loop of \<^verbatim>\<open>realloc\<close>: \<^verbatim>\<open>while (target != end) *(target++) = *(source++)\<close>.\<close>

fun copy_loop :: "nat \<Rightarrow> heap \<Rightarrow> addr \<Rightarrow> addr \<Rightarrow> addr \<Rightarrow> heap option" where
  "copy_loop fuel m source target fend =
     (if target \<noteq> fend
      then (if fuel = 0 then None
            else copy_loop (fuel - 1) (m(target := m source))
                   (source + SIZE_T_SIZE) (target + SIZE_T_SIZE) fend)
      else Some m)"

declare copy_loop.simps [simp del]

definition realloc :: "nat \<Rightarrow> state \<Rightarrow> addr \<Rightarrow> size_t \<Rightarrow> (addr \<times> state) option" where
  "realloc fuel st ptr sz =
     (if ptr = 0 then malloc fuel st sz
      else if sz = 0
      then (case free fuel st ptr of None \<Rightarrow> None | Some st1 \<Rightarrow> Some (ptr, st1))
      else let old_size = GETSIZE (mem st (FENCE_BACKWARD ptr)) - FENCE_OVERHEAD
           in if old_size \<ge> sz then Some (ptr, st)
              else (case malloc fuel st sz of
                      None \<Rightarrow> None
                    | Some (ret, st1) \<Rightarrow>
                        if ret \<noteq> 0
                        then (case copy_loop fuel (mem st1) ptr ret
                                     (ret + (sz div SIZE_T_SIZE) * SIZE_T_SIZE) of
                                None \<Rightarrow> None
                              | Some m1 \<Rightarrow>
                                  (case free fuel (st1\<lparr>mem := m1\<rparr>) ptr of
                                     None \<Rightarrow> None
                                   | Some st2 \<Rightarrow> Some (ret, st2)))
                        else Some (ret, st1)))"

section \<open>Clients\<close>

text \<open>
  A client program is a list of calls.  Besides the four entry points a client may store
  a word into memory it owns.  The interface contract is checked while the program runs:
  a client may only release or resize a pointer it currently holds, and may only store
  inside the bytes it was granted (the size it asked for).  \<open>run\<close> executes the calls in
  order and collects what each one returned (\<open>0\<close> for the calls that return nothing); it
  is \<open>None\<close> when a call does not return or the client breaks the contract.
\<close>

datatype call =
    Malloc size_t
  | Free addr
  | Calloc size_t size_t
  | Realloc addr size_t
  | Store addr size_t

type_synonym grants = "(addr \<times> size_t) list"

definition holds :: "grants \<Rightarrow> addr \<Rightarrow> bool" where
  "holds gs p = list_ex (\<lambda>(q, n). q = p) gs"

definition owns_word :: "grants \<Rightarrow> addr \<Rightarrow> bool" where
  "owns_word gs a = list_ex (\<lambda>(q, n). uint q \<le> uint a \<and> uint a + 8 \<le> uint q + uint n) gs"

definition grant :: "addr \<Rightarrow> size_t \<Rightarrow> grants \<Rightarrow> grants" where
  "grant p n gs = (if p = 0 then gs else (p, n) # gs)"

definition revoke :: "addr \<Rightarrow> grants \<Rightarrow> grants" where
  "revoke p gs = filter (\<lambda>(q, n). q \<noteq> p) gs"

fun step :: "nat \<Rightarrow> grants \<Rightarrow> state \<Rightarrow> call \<Rightarrow> (addr \<times> grants \<times> state) option" where
  "step fuel gs st (Malloc n) =
     (case malloc fuel st n of
        None \<Rightarrow> None
      | Some (p, st1) \<Rightarrow> Some (p, grant p n gs, st1))"
| "step fuel gs st (Free p) =
     (if p = 0 \<or> holds gs p
      then (case free fuel st p of
              None \<Rightarrow> None
            | Some st1 \<Rightarrow> Some (0, revoke p gs, st1))
      else None)"
| "step fuel gs st (Calloc k s) =
     (case calloc fuel st k s of
        None \<Rightarrow> None
      | Some (p, st1) \<Rightarrow> Some (p, grant p (k * s) gs, st1))"
| "step fuel gs st (Realloc p n) =
     (if p = 0 \<or> holds gs p
      then (case realloc fuel st p n of
              None \<Rightarrow> None
            | Some (r, st1) \<Rightarrow>
                Some (r, if p \<noteq> 0 \<and> n = 0 then revoke p gs
                         else if r = 0 then gs
                         else grant r n (revoke p gs), st1))
      else None)"
| "step fuel gs st (Store a v) =
     (if owns_word gs a then Some (0, gs, st\<lparr>mem := (mem st)(a := v)\<rparr>) else None)"

fun run_from :: "nat \<Rightarrow> grants \<Rightarrow> state \<Rightarrow> call list \<Rightarrow> (addr list \<times> state) option" where
  "run_from fuel gs st [] = Some ([], st)"
| "run_from fuel gs st (c # cs) =
     (case step fuel gs st c of
        None \<Rightarrow> None
      | Some (r, gs1, st1) \<Rightarrow>
          (case run_from fuel gs1 st1 cs of
             None \<Rightarrow> None
           | Some (rs, st2) \<Rightarrow> Some (r # rs, st2)))"

text \<open>
  A process that has not yet called the allocator: the statics are zero, the break is at
  \<open>0x10000\<close>, pages are 4096 bytes, memory reads as zero and the kernel grants up to one
  megabyte.
\<close>

definition virgin :: state where
  "virgin = \<lparr>mem = (\<lambda>a. 0), PAGE_SIZE = 0, flist = 0, HEAP_START = 0, errno = 0,
              sc_pagesize = 4096, brk = 0x10000, brk_room = 0x100000, brk_calls = 0\<rparr>"

definition run :: "call list \<Rightarrow> (addr list \<times> state) option" where
  "run cs = run_from 64 [] virgin cs"

definition returned :: "call list \<Rightarrow> addr list option" where
  "returned cs = map_option fst (run cs)"

definition word_after :: "call list \<Rightarrow> addr \<Rightarrow> size_t option" where
  "word_after cs a = (case run cs of None \<Rightarrow> None | Some (rs, st) \<Rightarrow> Some (mem st a))"

definition flist_after :: "call list \<Rightarrow> addr option" where
  "flist_after cs = (case run cs of None \<Rightarrow> None | Some (rs, st) \<Rightarrow> Some (flist st))"

definition holds_after :: "call list \<Rightarrow> (state \<Rightarrow> bool) \<Rightarrow> bool option" where
  "holds_after cs P = (case run cs of None \<Rightarrow> None | Some (rs, st) \<Rightarrow> Some (P st))"

section \<open>The heap invariants of the specification\<close>

text \<open>
  Forward fence traversal: from a chunk start, the next chunk starts right after the
  footer, that is \<open>GETSIZE\<close> of the header further on; a sentinel (the word \<open>1\<close>) ends
  the traversal.  The traversals below visit at most \<open>fuel\<close> chunks.
\<close>

fun fences_agree_from :: "nat \<Rightarrow> heap \<Rightarrow> addr \<Rightarrow> bool" where
  "fences_agree_from fuel m c =
     (if m c = 1 \<or> fuel = 0 then True
      else m (FENCE_BACKWARD (c + GETSIZE (m c))) = m c
           \<and> fences_agree_from (fuel - 1) m (c + GETSIZE (m c)))"

declare fences_agree_from.simps [simp del]

definition fences_agree :: "nat \<Rightarrow> state \<Rightarrow> bool" where
  "fences_agree fuel st = fences_agree_from fuel (mem st) (HEAP_START st)"

fun coalesced_from :: "nat \<Rightarrow> heap \<Rightarrow> addr \<Rightarrow> bool" where
  "coalesced_from fuel m c =
     (if m c = 1 \<or> fuel = 0 then True
      else \<not> (ISUSED (m c) = 0 \<and> ISUSED (m (c + GETSIZE (m c))) = 0)
           \<and> coalesced_from (fuel - 1) m (c + GETSIZE (m c)))"

declare coalesced_from.simps [simp del]

definition coalesced :: "nat \<Rightarrow> state \<Rightarrow> bool" where
  "coalesced fuel st = coalesced_from fuel (mem st) (HEAP_START st)"

text \<open>An address is a chunk start when the forward fence traversal reaches it.\<close>

fun reaches :: "nat \<Rightarrow> heap \<Rightarrow> addr \<Rightarrow> addr \<Rightarrow> bool" where
  "reaches fuel m c a =
     (if m c = 1 \<or> fuel = 0 then False
      else c = a \<or> reaches (fuel - 1) m (c + GETSIZE (m c)) a)"

declare reaches.simps [simp del]

definition chunk_start :: "nat \<Rightarrow> addr \<Rightarrow> state \<Rightarrow> bool" where
  "chunk_start fuel a st = reaches fuel (mem st) (HEAP_START st) a"

text \<open>The free list, followed along \<^verbatim>\<open>next\<close>, is strictly ascending by address.\<close>

fun ascending_from :: "nat \<Rightarrow> heap \<Rightarrow> addr \<Rightarrow> bool" where
  "ascending_from fuel m n =
     (if n = 0 \<or> m (NEXT n) = 0 \<or> fuel = 0 then True
      else n < m (NEXT n) \<and> ascending_from (fuel - 1) m (m (NEXT n)))"

declare ascending_from.simps [simp del]

definition flist_ascending :: "nat \<Rightarrow> state \<Rightarrow> bool" where
  "flist_ascending fuel st = ascending_from fuel (mem st) (flist st)"

definition aligned16 :: "addr \<Rightarrow> bool" where
  "aligned16 p = (p AND 15 = 0)"

text \<open>Byte \<open>i\<close> of the payload at \<open>p\<close> (little-endian, as on the 64-bit targets assumed).\<close>

definition payload_byte :: "heap \<Rightarrow> addr \<Rightarrow> nat \<Rightarrow> 8 word" where
  "payload_byte m p i = ucast (drop_bit (8 * (i mod 8)) (m (p + of_nat (8 * (i div 8)))))"

definition zero_filled :: "addr \<Rightarrow> nat \<Rightarrow> state \<Rightarrow> bool" where
  "zero_filled p n st = list_all (\<lambda>i. payload_byte (mem st) p i = 0) [0..<n]"

text \<open>The position of the highest set bit of a number, counted from 1 (0 for 0).\<close>

fun bitlen :: "nat \<Rightarrow> nat" where
  "bitlen n = (if n = 0 then 0 else Suc (bitlen (n div 2)))"

declare bitlen.simps [simp del]

text \<open>
  A heap of one page that is handed out whole (the state after \<^verbatim>\<open>malloc(4064)\<close> in a
  fresh process) when the kernel grants nothing more.
\<close>

definition full_heap :: state where
  "full_heap = \<lparr>mem = (\<lambda>a. 0)(0x10000 := 1, 0x10008 := 4081, 0x10FF0 := 4081, 0x10FF8 := 1),
                 PAGE_SIZE = 4096, flist = 0, HEAP_START = 0x10008, errno = 0,
                 sc_pagesize = 4096, brk = 0x11000, brk_room = 0, brk_calls = 1\<rparr>"

text \<open>The number of bytes \<^verbatim>\<open>malloc_expand\<close> asks of the break primitive.\<close>

definition grow_bytes :: "state \<Rightarrow> size_t \<Rightarrow> size_t" where
  "grow_bytes st sz =
     (if PAGE_SIZE st = 0 then ROUNDUP_PAGE (sc_pagesize st) (sz + FENCE_OVERHEAD)
      else ROUNDUP_PAGE (PAGE_SIZE st) sz)"

text \<open>
  The nodes of the free list in list order, when following \<^verbatim>\<open>next\<close> from \<open>a\<close> reaches the
  null pointer within \<open>fuel\<close> nodes, and \<open>None\<close> when it does not.
\<close>

fun free_nodes :: "nat \<Rightarrow> heap \<Rightarrow> addr \<Rightarrow> addr list option" where
  "free_nodes fuel m a =
     (if a = 0 then Some []
      else if fuel = 0 then None
      else map_option (Cons a) (free_nodes (fuel - 1) m (m (NEXT a))))"

declare free_nodes.simps [simp del]

text \<open>
  A chunk at \<open>c\<close> of \<open>sz\<close> bytes that \<^verbatim>\<open>free\<close> can be given: its start and its size are
  multiples of 8, it has room for a node and a footer, the fence word before it exists
  and the word after its footer lies in the address space.  A node \<open>n\<close> of the free list
  lies apart from that chunk when it is at a multiple of 8 and its first 32 bytes end
  before the chunk begins or begin where the chunk has ended.
\<close>

definition chunk_ok :: "addr \<Rightarrow> size_t \<Rightarrow> bool" where
  "chunk_ok c sz =
     (c AND 7 = 0 \<and> sz AND 7 = 0 \<and> 8 \<le> uint c \<and> 32 \<le> uint sz
      \<and> uint c + uint sz + 8 \<le> 2 ^ 64)"

definition node_apart :: "addr \<Rightarrow> size_t \<Rightarrow> addr \<Rightarrow> bool" where
  "node_apart c sz n =
     (n AND 7 = 0 \<and> uint n + 32 \<le> 2 ^ 64
      \<and> (uint n + 32 \<le> uint c \<or> uint c + uint sz \<le> uint n))"

text \<open>
  What the first two statements of \<^verbatim>\<open>malloc_fnode_release\<close> leave in memory: the size in
  header and footer and two null links.
\<close>

definition marked_free :: "heap \<Rightarrow> addr \<Rightarrow> size_t \<Rightarrow> heap" where
  "marked_free m c sz = m(c := sz, FENCE_BACKWARD (c + sz) := sz, PREV c := 0, NEXT c := 0)"

text \<open>
  A heap of two pages with a free chunk of 4080 bytes at \<open>0x10008\<close>, directly followed by
  a used chunk of 4096 bytes at \<open>0x10FF8\<close> (the state after
  \<^verbatim>\<open>p = malloc(4064); q = malloc(4080); free(p)\<close> in a fresh process).
\<close>

definition two_chunks :: state where
  "two_chunks = \<lparr>mem = (\<lambda>a. 0)(0x10000 := 1, 0x10008 := 4080, 0x10FF0 := 4080,
                                  0x10FF8 := 4097, 0x11FF0 := 4097, 0x11FF8 := 1),
                  PAGE_SIZE = 4096, flist = 0x10008, HEAP_START = 0x10008, errno = 0,
                  sc_pagesize = 4096, brk = 0x12000, brk_room = 0xFE000, brk_calls = 2\<rparr>"

section \<open>Splitting on allocation\<close>

text \<open>
  Claim C1 (the split carves the high end as a free remainder and the chunk handed out is
  marked used with header and footer recording the rounded request).  The first
  allocation of a process, \<^verbatim>\<open>malloc(1)\<close>, rounds the request to 32 bytes, grows the heap by
  one page and splits the fresh chunk of 4080 bytes at \<open>0x10008\<close>.  The remainder at
  \<open>0x10028\<close> gets the header 4048 and becomes the head of the free list, and the payload
  is chunk start plus 8.  But \<^verbatim>\<open>malloc_fnode_split\<close> ends with
  \<^verbatim>\<open>malloc_fnode_assign_used(start, node->size)\<close> where the rounded request \<^verbatim>\<open>size\<close> was
  meant: the header of the chunk handed out records 4080 with the used bit, not 32; the
  word where its footer belongs (\<open>0x10020\<close>) is never written; and the footer of the
  remainder (\<open>0x10FF0\<close>) is overwritten with 4081.

  A second \<^verbatim>\<open>malloc(1)\<close> finds its first fit on the free list, the chunk of 4048 bytes at
  \<open>0x10028\<close>.  The remainder of 4016 bytes at \<open>0x10048\<close> replaces it as the head of the
  list, the payload is \<open>0x10030\<close>, and again the chunk handed out has the header 4049
  where 33 is claimed, and the footer of the remainder holds 4049.
\<close>

theorem split_records_fit_size_not_request:
  "ROUNDUP_CHUNK 1 = 32
   \<and> returned [Malloc 1] = Some [0x10010]
   \<and> flist_after [Malloc 1] = Some 0x10028
   \<and> word_after [Malloc 1] 0x10028 = Some 4048
   \<and> word_after [Malloc 1] 0x10008 = Some 4081
   \<and> word_after [Malloc 1] 0x10020 = Some 0
   \<and> word_after [Malloc 1] 0x10FF0 = Some 4081
   \<and> returned [Malloc 1, Malloc 1] = Some [0x10010, 0x10030]
   \<and> flist_after [Malloc 1, Malloc 1] = Some 0x10048
   \<and> word_after [Malloc 1, Malloc 1] 0x10048 = Some 4016
   \<and> word_after [Malloc 1, Malloc 1] 0x10028 = Some 4049
   \<and> word_after [Malloc 1, Malloc 1] 0x10040 = Some 0
   \<and> word_after [Malloc 1, Malloc 1] 0x10FF0 = Some 4049"
  by code_simp

section \<open>Agreement of header and footer\<close>

text \<open>
  Claim C2 (every chunk reached by forward fence traversal from the heap start has equal
  header and footer, after every sequence of calls).  After \<^verbatim>\<open>malloc(1); malloc(1)\<close> the
  chunk at the heap start has the header 4081, and the word its size leads to, at
  \<open>0x10FF0\<close>, holds 4049: the second split wrote the fit size of the second chunk there.
  The traversal from the heap start finds the disagreement at its first chunk.
\<close>

theorem second_split_breaks_fence_agreement:
  "returned [Malloc 1, Malloc 1] = Some [0x10010, 0x10030]
   \<and> holds_after [Malloc 1, Malloc 1] (fences_agree 8) = Some False
   \<and> word_after [Malloc 1, Malloc 1] 0x10008 = Some 4081
   \<and> word_after [Malloc 1, Malloc 1] 0x10FF0 = Some 4049"
  by code_simp

section \<open>The address-ordered free list\<close>

text \<open>
  Claim C3 (after every entry point returns the free list holds every free chunk exactly
  once, no used chunk, and is strictly ascending by address).  After
  \<^verbatim>\<open>p = malloc(1); free(p); malloc(1)\<close> the head of the free list is the node at
  \<open>0x10028\<close> and its \<^verbatim>\<open>next\<close> field points to that node itself: the release read the
  size 4080 from the header of \<open>p\<close>, so the chunk it put on the list covers the remainder
  at \<open>0x10028\<close>, and the next split replaced it by a remainder at that same address whose
  successor is the old successor, itself.
\<close>

theorem free_list_cycle_after_reuse:
  "returned [Malloc 1, Free 0x10010, Malloc 1] = Some [0x10010, 0, 0x10010]
   \<and> holds_after [Malloc 1, Free 0x10010, Malloc 1] (flist_ascending 8) = Some False
   \<and> flist_after [Malloc 1, Free 0x10010, Malloc 1] = Some 0x10028
   \<and> word_after [Malloc 1, Free 0x10010, Malloc 1] (NEXT 0x10028) = Some 0x10028
   \<and> word_after [Malloc 1, Free 0x10010, Malloc 1] 0x10028 = Some 4048"
  by code_simp

text \<open>
  On such a list the first-fit search for a size the node does not have never returns,
  whatever the bound on its iterations: a later \<^verbatim>\<open>malloc(5000)\<close> loops forever.
\<close>

lemma find_fit_cycle:
  "a \<noteq> 0 \<Longrightarrow> m (NEXT a) = a \<Longrightarrow> \<not> sz \<le> m a \<Longrightarrow> malloc_find_fit fuel m a sz = None"
proof (induction fuel)
  case 0
  then show ?case by (simp add: malloc_find_fit.simps [of 0])
next
  case (Suc fuel)
  then show ?case by (simp add: malloc_find_fit.simps [of "Suc fuel"])
qed

lemma malloc_on_cycle:
  assumes "flist st \<noteq> 0" and "mem st (NEXT (flist st)) = flist st"
      and "\<not> ROUNDUP_CHUNK n \<le> mem st (flist st)"
  shows "malloc fuel st n = None"
  using find_fit_cycle [OF assms] by (simp add: malloc_def Let_def)

section \<open>Alignment of returned payloads\<close>

text \<open>
  Claim C5 (every non-null pointer returned by \<^verbatim>\<open>malloc\<close> is 16-byte aligned and 8 bytes
  past a chunk start).  After \<^verbatim>\<open>p = malloc(1)\<close> the header of \<open>p\<close> records 4080 bytes, so
  \<^verbatim>\<open>realloc(p, 4000)\<close> returns \<open>p\<close> unchanged and the client now owns 4000 bytes at \<open>p\<close>.
  These bytes cover the free remainder at \<open>0x10028\<close>, the head of the free list.  The
  client stores into its own payload: the word at \<open>p + 24\<close> (the size of that node)
  becomes 0, the word at \<open>p + 40\<close> (its \<^verbatim>\<open>next\<close>) becomes \<open>p + 48\<close>, the word at \<open>p + 48\<close>
  becomes 32.  The next \<^verbatim>\<open>malloc(1)\<close> passes over the head, fits the word at \<open>p + 48\<close>
  and returns \<open>0x10048\<close>, which is 8 modulo 16.

  Without any store by the client: after \<^verbatim>\<open>malloc(1); q = malloc(1)\<close> the fence
  traversal from the heap start sees one chunk of 4080 bytes and then the sentinel, so
  \<open>q - 8 = 0x10028\<close> is not the start of any chunk it reaches, while \<open>p - 8\<close> is.
\<close>

theorem unaligned_payload_after_resize_in_place:
  "returned [Malloc 1, Realloc 0x10010 4000, Store 0x10028 0, Store 0x10038 0x10040,
             Store 0x10040 32, Malloc 1]
     = Some [0x10010, 0x10010, 0, 0, 0, 0x10048]
   \<and> map_option (list_all aligned16)
         (returned [Malloc 1, Realloc 0x10010 4000, Store 0x10028 0, Store 0x10038 0x10040,
                    Store 0x10040 32, Malloc 1])
     = Some False
   \<and> returned [Malloc 1, Malloc 1] = Some [0x10010, 0x10030]
   \<and> holds_after [Malloc 1, Malloc 1] (chunk_start 8 (FENCE_BACKWARD 0x10030)) = Some False
   \<and> holds_after [Malloc 1, Malloc 1] (chunk_start 8 (FENCE_BACKWARD 0x10010)) = Some True"
  by code_simp

section \<open>Zero-initialised allocation\<close>

text \<open>
  Claim C7 (a successful \<^verbatim>\<open>calloc(k, s)\<close> yields a payload whose first \<open>k * s\<close> bytes are
  zero).  The client allocates 24 bytes, fills the third word with ones, releases the
  block and calls \<^verbatim>\<open>calloc(23, 1)\<close>.  The same payload comes back; the loop zeroes
  \<open>23 / 8 = 2\<close> words, and the bytes 16 to 22 of the payload are still \<open>0xFF\<close>.
\<close>

theorem calloc_leaves_trailing_bytes:
  "returned [Malloc 24, Store 0x10020 (- 1), Free 0x10010, Calloc 23 1]
     = Some [0x10010, 0, 0, 0x10010]
   \<and> holds_after [Malloc 24, Store 0x10020 (- 1), Free 0x10010, Calloc 23 1]
         (zero_filled 0x10010 23) = Some False
   \<and> word_after [Malloc 24, Store 0x10020 (- 1), Free 0x10010, Calloc 23 1] 0x10020
     = Some (- 1)"
  by code_simp

section \<open>Resizing\<close>

text \<open>
  Claim C8 (a growing \<^verbatim>\<open>realloc(p, n)\<close> copies exactly \<open>min(n, old)\<close> bytes).  After
  \<^verbatim>\<open>malloc(4000); p = malloc(48)\<close> the chunk of \<open>p = 0x10FC0\<close> is the 64-byte chunk at
  \<open>0x10FB8\<close>, taken whole: header and footer hold 65 and the payload capacity is 48.
  \<^verbatim>\<open>realloc(p, 56)\<close> allocates \<open>q = 0x11000\<close> and copies \<open>56 / 8 = 7\<close> words, one more than
  the old payload has: the word at \<open>q + 48\<close> receives the footer of the old chunk, 65.
  A plain \<^verbatim>\<open>malloc(56)\<close> in the same state leaves that word 0.  The old chunk is
  released (it heads the free list, marked free) and \<open>q\<close> is returned, as claimed.
\<close>

theorem realloc_copies_past_old_payload:
  "returned [Malloc 4000, Malloc 48, Realloc 0x10FC0 56] = Some [0x10010, 0x10FC0, 0x11000]
   \<and> word_after [Malloc 4000, Malloc 48] 0x10FB8 = Some 65
   \<and> word_after [Malloc 4000, Malloc 48] 0x10FF0 = Some 65
   \<and> word_after [Malloc 4000, Malloc 48, Realloc 0x10FC0 56] 0x11030 = Some 65
   \<and> word_after [Malloc 4000, Malloc 48, Malloc 56] 0x11030 = Some 0
   \<and> flist_after [Malloc 4000, Malloc 48, Realloc 0x10FC0 56] = Some 0x10FB8
   \<and> word_after [Malloc 4000, Malloc 48, Realloc 0x10FC0 56] 0x10FB8 = Some 64"
  by code_simp

section \<open>The overflow guard of zero-initialised allocation\<close>

text \<open>\<^verbatim>\<open>highest\<close> computes the bit length of its argument.\<close>

lemma bitlen_bound: "n < 2 ^ bitlen n"
proof (induction n rule: bitlen.induct)
  case (1 n)
  show ?case
  proof (cases "n = 0")
    case True
    then show ?thesis by (simp add: bitlen.simps)
  next
    case False
    with "1" have "n div 2 < 2 ^ bitlen (n div 2)" by simp
    then have "n < 2 * 2 ^ bitlen (n div 2)" by linarith
    with False show ?thesis by (simp add: bitlen.simps [of n])
  qed
qed

lemma bitlen_le: "n < 2 ^ k \<Longrightarrow> bitlen n \<le> k"
proof (induction k arbitrary: n)
  case 0
  then show ?case by (simp add: bitlen.simps)
next
  case (Suc k)
  show ?case
  proof (cases "n = 0")
    case True
    then show ?thesis by (simp add: bitlen.simps)
  next
    case False
    from Suc.prems have "n div 2 < 2 ^ k" by simp
    then have "bitlen (n div 2) \<le> k" by (rule Suc.IH)
    with False show ?thesis by (simp add: bitlen.simps [of n])
  qed
qed

lemma highest_loop_bitlen: "highest_loop w nb = nb + of_nat (bitlen (unat w))"
proof (induction w nb rule: highest_loop.induct)
  case (1 inp num_bits)
  show ?case
  proof (cases "inp = 0")
    case True
    then show ?thesis by (simp add: highest_loop.simps bitlen.simps)
  next
    case False
    then have nz: "unat inp \<noteq> 0" by (simp add: unat_eq_0)
    have "unat (drop_bit 1 inp) = unat inp div 2"
      by (simp add: unat_drop_bit_eq drop_bit_eq_div unat_div)
    with "1" False have "highest_loop (drop_bit 1 inp) (num_bits + 1)
        = num_bits + 1 + of_nat (bitlen (unat inp div 2))" by simp
    with False nz show ?thesis
      by (simp add: highest_loop.simps [of inp] bitlen.simps [of "unat inp"])
  qed
qed

lemma bitlen_unat_le: "bitlen (unat (w :: size_t)) \<le> 64"
proof -
  have "unat w < 2 ^ 64" using unsigned_less [of w] by simp
  then show ?thesis by (rule bitlen_le)
qed

lemma unat_highest: "unat (highest w) = bitlen (unat w)"
proof -
  have "bitlen (unat w) < 2 ^ 64"
    using bitlen_unat_le [of w] by simp
  then show ?thesis
    by (simp add: highest_def highest_loop_bitlen unat_of_nat)
qed

lemma unat_highest_sum: "unat (highest k + highest s) = bitlen (unat k) + bitlen (unat s)"
proof -
  have "bitlen (unat k) + bitlen (unat s) < 2 ^ 64"
    using bitlen_unat_le [of k] bitlen_unat_le [of s] by simp
  then show ?thesis
    by (simp add: unat_word_ariths unat_highest)
qed

lemma guard_iff: "(64 < highest k + highest s) = (64 < bitlen (unat k) + bitlen (unat s))"
  by (simp add: word_less_nat_alt unat_highest_sum)

lemma overflow_guarded:
  assumes "2 ^ 64 \<le> unat k * unat s"
  shows "64 < bitlen (unat (k :: size_t)) + bitlen (unat (s :: size_t))"
proof (rule ccontr)
  assume "\<not> 64 < bitlen (unat k) + bitlen (unat s)"
  then have le: "bitlen (unat k) + bitlen (unat s) \<le> 64" by simp
  have "unat k * unat s < 2 ^ bitlen (unat k) * 2 ^ bitlen (unat s)"
    using bitlen_bound [of "unat k"] bitlen_bound [of "unat s"]
    by (intro mult_strict_mono) simp_all
  also have "\<dots> = 2 ^ (bitlen (unat k) + bitlen (unat s))"
    by (simp add: power_add)
  also have "\<dots> \<le> (2 :: nat) ^ 64"
    using le by (intro power_increasing) simp_all
  finally show False using assms by simp
qed

lemma highest_max: "highest (- 1) = 64"
  by code_simp

lemma highest_two: "highest 2 = 2"
  by code_simp

text \<open>
  Claim C6.  Whenever \<open>highest count + highest elem_size\<close> exceeds 64, \<^verbatim>\<open>calloc\<close> returns
  null and sets \<^verbatim>\<open>errno\<close> to \<^verbatim>\<open>ENOMEM\<close>; nothing else of the state changes, so the break
  primitive has not been called.  Every pair whose product does not fit the 64-bit size
  word is rejected by this guard.  In particular \<^verbatim>\<open>calloc(SIZE_MAX, 2)\<close> returns null.
\<close>

theorem calloc_overflow_guard:
  "(64 < highest k + highest s \<longrightarrow>
      calloc fuel st k s = Some (0, st\<lparr>errno := ENOMEM\<rparr>)
      \<and> brk_calls (st\<lparr>errno := ENOMEM\<rparr>) = brk_calls st)
   \<and> (2 ^ 64 \<le> unat k * unat s \<longrightarrow>
      64 < highest k + highest s
      \<and> calloc fuel st k s = Some (0, st\<lparr>errno := ENOMEM\<rparr>))
   \<and> calloc fuel st (- 1) 2 = Some (0, st\<lparr>errno := ENOMEM\<rparr>)"
proof (intro conjI impI)
  assume "64 < highest k + highest s"
  then show "calloc fuel st k s = Some (0, st\<lparr>errno := ENOMEM\<rparr>)"
    by (simp add: calloc_def)
next
  show "brk_calls (st\<lparr>errno := ENOMEM\<rparr>) = brk_calls st" by simp
next
  assume "2 ^ 64 \<le> unat k * unat s"
  then show g: "64 < highest k + highest s"
    by (simp add: guard_iff overflow_guarded)
  then show "calloc fuel st k s = Some (0, st\<lparr>errno := ENOMEM\<rparr>)"
    by (simp add: calloc_def)
next
  show "calloc fuel st (- 1) 2 = Some (0, st\<lparr>errno := ENOMEM\<rparr>)"
    by (simp add: calloc_def highest_max highest_two)
qed

theorem calloc_overflow_guard_witness:
  "64 < highest (- 1) + highest 2
   \<and> (2 :: nat) ^ 64 \<le> unat (- 1 :: size_t) * unat (2 :: size_t)
   \<and> calloc 0 virgin (- 1) 2 = Some (0, virgin\<lparr>errno := ENOMEM\<rparr>)
   \<and> brk_calls (virgin\<lparr>errno := ENOMEM\<rparr>) = 0"
  using calloc_overflow_guard [of "- 1" 2 0 virgin]
  by (simp add: highest_max highest_two virgin_def unsigned_minus_1_eq_mask mask_eq_exp_minus_1)

section \<open>Failure of an allocation\<close>

text \<open>Only the failing path of \<^verbatim>\<open>malloc\<close> touches \<^verbatim>\<open>errno\<close>.\<close>

lemma aligned_plus8: "a AND 15 = 0 \<Longrightarrow> a + 8 \<noteq> (0 :: addr)"
proof
  assume al: "a AND 15 = 0" and "a + 8 = 0"
  then have "a = - 8" by (simp add: eq_neg_iff_add_eq_0)
  with al show False by simp
qed

lemma aligned_minus8: "a AND 15 = 0 \<Longrightarrow> a - 8 \<noteq> (0 :: addr)"
proof
  assume al: "a AND 15 = 0" and "a - 8 = 0"
  then have "a = 8" by simp
  with al show False by simp
qed

lemma get_memory_frame:
  assumes "get_memory st n = (a, st')"
  shows "mem st' = mem st \<and> flist st' = flist st \<and> errno st' = errno st
         \<and> PAGE_SIZE st' = PAGE_SIZE st \<and> (a \<noteq> 0 \<longrightarrow> a = brk st)"
proof (cases "n \<le> brk_room st")
  case True
  with assms show ?thesis by (auto simp: get_memory_def)
next
  case False
  with assms show ?thesis by (auto simp: get_memory_def)
qed

lemma malloc_list_addr_insert_errno:
  assumes "malloc_list_addr_insert fuel st item = Some st'"
  shows "errno st' = errno st"
proof (cases "flist st = 0 \<or> item < flist st")
  case True
  with assms have "st' = st\<lparr>mem := mem st', flist := item\<rparr>"
    by (auto simp: malloc_list_addr_insert_def)
  then have "errno st' = errno (st\<lparr>mem := mem st', flist := item\<rparr>)" by simp
  then show ?thesis by simp
next
  case False
  with assms obtain front where "insert_walk fuel (mem st) (flist st) item = Some front"
    by (auto simp: malloc_list_addr_insert_def split: option.splits)
  with assms False have "st' = st\<lparr>mem := mem st'\<rparr>"
    by (auto simp: malloc_list_addr_insert_def Let_def)
  then have "errno st' = errno (st\<lparr>mem := mem st'\<rparr>)" by simp
  then show ?thesis by simp
qed

lemma malloc_list_remove_errno:
  assumes "malloc_list_remove fuel st node = Some st'"
  shows "errno st' = errno st"
proof (cases "flist st = node")
  case True
  with assms have "st' = st\<lparr>mem := mem st', flist := flist st'\<rparr>"
    by (auto simp: malloc_list_remove_def Let_def)
  then have "errno st' = errno (st\<lparr>mem := mem st', flist := flist st'\<rparr>)" by simp
  then show ?thesis by simp
next
  case False
  with assms obtain front where "remove_walk fuel (mem st) (flist st) node = Some front"
    by (auto simp: malloc_list_remove_def split: option.splits)
  with assms False have "st' = st\<lparr>mem := mem st'\<rparr>"
    by (auto simp: malloc_list_remove_def Let_def)
  then have "errno st' = errno (st\<lparr>mem := mem st'\<rparr>)" by simp
  then show ?thesis by simp
qed

lemma malloc_fnode_split_errno:
  assumes "malloc_fnode_split fuel st node sz = Some (p, st')"
  shows "errno st' = errno st"
proof (cases "NODE_OVERHEAD \<le> mem st node - sz")
  case True
  with assms have "st' = st\<lparr>mem := mem st', flist := flist st'\<rparr>"
    by (auto simp: malloc_fnode_split_def Let_def)
  then have "errno st' = errno (st\<lparr>mem := mem st', flist := flist st'\<rparr>)" by simp
  then show ?thesis by simp
next
  case False
  with assms obtain st1 where rm: "malloc_list_remove fuel st node = Some st1"
    by (auto simp: malloc_fnode_split_def Let_def split: option.splits)
  with assms False have "st' = st1\<lparr>mem := mem st'\<rparr>"
    by (auto simp: malloc_fnode_split_def Let_def)
  then have "errno st' = errno (st1\<lparr>mem := mem st'\<rparr>)" by simp
  with malloc_list_remove_errno [OF rm] show ?thesis by simp
qed

lemma malloc_fnode_release_errno:
  assumes "malloc_fnode_release fuel st target = Some st'"
  shows "errno st' = errno st"
proof -
  from assms obtain m where "malloc_list_addr_insert fuel (st\<lparr>mem := m\<rparr>) target = Some st'"
    by (auto simp: malloc_fnode_release_def Let_def)
  from malloc_list_addr_insert_errno [OF this] show ?thesis by simp
qed

lemma free_errno:
  assumes "free fuel st ptr = Some st'"
  shows "errno st' = errno st"
proof (cases "ptr = 0")
  case True
  with assms show ?thesis by (simp add: free_def)
next
  case False
  with assms have "malloc_fnode_release fuel st (FENCE_BACKWARD ptr) = Some st'"
    by (simp add: free_def)
  then show ?thesis by (rule malloc_fnode_release_errno)
qed

lemma malloc_expand_errno:
  assumes "malloc_expand st sz = Some (a, st')"
  shows "errno st' = errno st"
proof -
  let ?st1 = "if PAGE_SIZE st = 0 then st\<lparr>PAGE_SIZE := sc_pagesize st\<rparr> else st"
  let ?sz1 = "if PAGE_SIZE st = 0 then ROUNDUP_PAGE (PAGE_SIZE ?st1) (sz + FENCE_OVERHEAD)
              else ROUNDUP_PAGE (PAGE_SIZE ?st1) sz"
  obtain start st2 where gm: "get_memory ?st1 ?sz1 = (start, st2)"
    by (cases "get_memory ?st1 ?sz1")
  from get_memory_frame [OF gm] have e2: "errno st2 = errno st" by (simp split: if_splits)
  from assms gm have "st' = st2 \<or> st' = st2\<lparr>mem := mem st', HEAP_START := HEAP_START st'\<rparr>
      \<or> st' = st2\<lparr>mem := mem st'\<rparr>"
    by (auto simp: malloc_expand_def Let_def split: if_splits)
  then have "errno st' = errno st2"
  proof (elim disjE)
    assume "st' = st2" then show ?thesis by simp
  next
    assume "st' = st2\<lparr>mem := mem st', HEAP_START := HEAP_START st'\<rparr>"
    then have "errno st' = errno (st2\<lparr>mem := mem st', HEAP_START := HEAP_START st'\<rparr>)" by simp
    then show ?thesis by simp
  next
    assume "st' = st2\<lparr>mem := mem st'\<rparr>"
    then have "errno st' = errno (st2\<lparr>mem := mem st'\<rparr>)" by simp
    then show ?thesis by simp
  qed
  with e2 show ?thesis by simp
qed

lemma malloc_expand_null:
  assumes "malloc_expand st sz = Some (0, st')" and "brk st AND 15 = 0"
  shows "mem st' = mem st \<and> flist st' = flist st"
proof -
  let ?st1 = "if PAGE_SIZE st = 0 then st\<lparr>PAGE_SIZE := sc_pagesize st\<rparr> else st"
  let ?sz1 = "if PAGE_SIZE st = 0 then ROUNDUP_PAGE (PAGE_SIZE ?st1) (sz + FENCE_OVERHEAD)
              else ROUNDUP_PAGE (PAGE_SIZE ?st1) sz"
  obtain start st2 where gm: "get_memory ?st1 ?sz1 = (start, st2)"
    by (cases "get_memory ?st1 ?sz1")
  from get_memory_frame [OF gm]
  have fr: "mem st2 = mem st" "flist st2 = flist st" "start \<noteq> 0 \<longrightarrow> start = brk st"
    by (simp_all split: if_splits)
  show ?thesis
  proof (cases "start = 0")
    case True
    with assms gm have "st' = st2"
      by (auto simp: malloc_expand_def Let_def split: if_splits)
    with fr show ?thesis by simp
  next
    case False
    with fr have "start = brk st" by simp
    with assms(2) have al: "start AND 15 = 0" by simp
    note aligned_plus8 [OF al] aligned_minus8 [OF al]
    with assms gm False have False
      by (auto simp: malloc_expand_def Let_def FENCE_SIZE_def split: if_splits)
    then show ?thesis ..
  qed
qed

text \<open>The heap \<open>full_heap\<close> is what one allocation of a whole page leaves.\<close>

lemma full_heap_reached:
  "malloc 0 (virgin\<lparr>brk_room := 4096\<rparr>) 4064 = Some (0x10010, full_heap)"
  by (simp add: malloc_def malloc_find_fit.simps malloc_expand_def get_memory_def
        malloc_list_addr_insert_def link_neighbours_def malloc_fnode_split_def
        malloc_list_remove_def malloc_fnode_assign_free_def malloc_fnode_assign_used_def
        virgin_def full_heap_def ROUNDUP_CHUNK_def ROUNDUP_16_def ROUNDUP_PAGE_def MAX_sz_def
        DIFF_OVERHEAD_def FENCE_OVERHEAD_def NODE_OVERHEAD_def NODE_SIZE_def FENCE_SIZE_def
        FENCE_BACKWARD_def SET_FREE_def SET_USED_def Let_def fun_eq_iff)

lemma malloc_outcome:
  assumes "malloc fuel st n = Some (r, st')"
  shows "errno st' = errno st
         \<or> (r = 0 \<and> (\<exists>st1. malloc_expand st (ROUNDUP_CHUNK n) = Some (0, st1)
                          \<and> st' = st1\<lparr>errno := ENOMEM\<rparr>))"
proof -
  let ?sz = "ROUNDUP_CHUNK n"
  from assms obtain fit where ff: "malloc_find_fit fuel (mem st) (flist st) ?sz = Some fit"
    by (auto simp: malloc_def Let_def split: option.splits)
  show ?thesis
  proof (cases "fit = 0")
    case False
    with assms ff have "malloc_fnode_split fuel st fit ?sz = Some (r, st')"
      by (simp add: malloc_def Let_def)
    then show ?thesis by (simp add: malloc_fnode_split_errno)
  next
    case True
    with assms ff obtain fit1 st1 where ex: "malloc_expand st ?sz = Some (fit1, st1)"
      by (auto simp: malloc_def Let_def split: option.splits)
    show ?thesis
    proof (cases "fit1 = 0")
      case True
      with assms ff \<open>fit = 0\<close> ex show ?thesis
        by (simp add: malloc_def Let_def)
    next
      case False
      with assms ff \<open>fit = 0\<close> ex obtain st2 where
        ins: "malloc_list_addr_insert fuel st1 fit1 = Some st2" and
        sp: "malloc_fnode_split fuel st2 fit1 ?sz = Some (r, st')"
        by (auto simp: malloc_def Let_def split: option.splits)
      have "errno st' = errno st2" using sp by (rule malloc_fnode_split_errno)
      also have "\<dots> = errno st1" using ins by (rule malloc_list_addr_insert_errno)
      also have "\<dots> = errno st" using ex by (rule malloc_expand_errno)
      finally show ?thesis by simp
    qed
  qed
qed

lemma malloc_enomem:
  assumes "malloc fuel st n = Some (r, st')"
      and "errno st \<noteq> ENOMEM" and "errno st' = ENOMEM" and "brk st AND 15 = 0"
  shows "r = 0 \<and> mem st' = mem st \<and> flist st' = flist st"
proof -
  from malloc_outcome [OF assms(1)] assms(2,3)
  obtain st1 where r: "r = 0" and ex: "malloc_expand st (ROUNDUP_CHUNK n) = Some (0, st1)"
    and st': "st' = st1\<lparr>errno := ENOMEM\<rparr>"
    by auto
  from malloc_expand_null [OF ex assms(4)] r st' show ?thesis by simp
qed

lemma realloc_enomem_intact:
  assumes "ptr \<noteq> 0" and "sz \<noteq> 0"
      and "brk st AND 15 = 0" and "errno st \<noteq> ENOMEM"
      and "realloc fuel st ptr sz = Some (ret, st')" and "errno st' = ENOMEM"
  shows "ret = 0 \<and> mem st' = mem st \<and> flist st' = flist st"
proof -
  let ?old = "GETSIZE (mem st (FENCE_BACKWARD ptr)) - FENCE_OVERHEAD"
  show ?thesis
  proof (cases "sz \<le> ?old")
    case True
    with assms show ?thesis by (simp add: realloc_def)
  next
    case False
    with assms obtain r st1 where m: "malloc fuel st sz = Some (r, st1)"
      by (auto simp: realloc_def Let_def split: option.splits)
    show ?thesis
    proof (cases "r = 0")
      case True
      with assms False m have "ret = 0" "st' = st1"
        by (auto simp: realloc_def Let_def)
      with malloc_enomem [OF m] assms show ?thesis by simp
    next
      case nz: False
      with assms False m obtain m1 where
        fr: "free fuel (st1\<lparr>mem := m1\<rparr>) ptr = Some st'"
        by (auto simp: realloc_def Let_def split: option.splits)
      from malloc_outcome [OF m] nz have "errno st1 = errno st" by simp
      with free_errno [OF fr] assms show ?thesis by simp
    qed
  qed
qed

lemma malloc_expand_refused:
  assumes "\<not> grow_bytes st sz \<le> brk_room st"
      and "PAGE_SIZE st \<noteq> 0 \<or> sc_pagesize st \<noteq> 0"
  shows "\<exists>st1. malloc_expand st sz = Some (0, st1) \<and> mem st1 = mem st
               \<and> flist st1 = flist st"
proof (cases "PAGE_SIZE st = 0")
  case True
  with assms show ?thesis
    by (simp add: malloc_expand_def get_memory_def grow_bytes_def Let_def)
next
  case False
  with assms show ?thesis
    by (simp add: malloc_expand_def get_memory_def grow_bytes_def Let_def)
qed

lemma malloc_refused:
  assumes "malloc_find_fit fuel (mem st) (flist st) (ROUNDUP_CHUNK n) = Some 0"
      and "\<not> grow_bytes st (ROUNDUP_CHUNK n) \<le> brk_room st"
      and "PAGE_SIZE st \<noteq> 0 \<or> sc_pagesize st \<noteq> 0"
  shows "\<exists>st'. malloc fuel st n = Some (0, st') \<and> errno st' = ENOMEM
               \<and> mem st' = mem st \<and> flist st' = flist st"
proof -
  from malloc_expand_refused [OF assms(2,3)]
  obtain st1 where "malloc_expand st (ROUNDUP_CHUNK n) = Some (0, st1)"
    and "mem st1 = mem st" and "flist st1 = flist st" by blast
  with assms(1) show ?thesis by (simp add: malloc_def Let_def)
qed

lemma realloc_refused:
  assumes "ptr \<noteq> 0" and "sz \<noteq> 0"
      and "\<not> sz \<le> GETSIZE (mem st (FENCE_BACKWARD ptr)) - FENCE_OVERHEAD"
      and "malloc_find_fit fuel (mem st) (flist st) (ROUNDUP_CHUNK sz) = Some 0"
      and "\<not> grow_bytes st (ROUNDUP_CHUNK sz) \<le> brk_room st"
      and "PAGE_SIZE st \<noteq> 0 \<or> sc_pagesize st \<noteq> 0"
  shows "\<exists>st'. realloc fuel st ptr sz = Some (0, st') \<and> errno st' = ENOMEM
               \<and> mem st' = mem st \<and> flist st' = flist st"
proof -
  from malloc_refused [OF assms(4,5,6)]
  obtain st' where "malloc fuel st sz = Some (0, st')" and "errno st' = ENOMEM"
    and "mem st' = mem st" and "flist st' = flist st" by blast
  with assms(1,2,3) show ?thesis by (simp add: realloc_def Let_def)
qed

text \<open>
  Claim C9.  Let \<open>p\<close> be non-null and \<open>n\<close> nonzero, and the program break 16-byte aligned.
  When \<^verbatim>\<open>realloc(p, n)\<close> reports that its allocation failed (the out-of-memory indicator,
  clear before the call, is set after it), it has returned null, and memory and the free
  list are as before the call: the chunk of \<open>p\<close> has not been released and no byte of its
  payload has changed.  And the failing call does return: when \<open>n\<close> exceeds the capacity
  of \<open>p\<close>, the first-fit search finds nothing and the kernel refuses the pages asked for,
  \<^verbatim>\<open>realloc\<close> returns null with the indicator set and memory and free list unchanged.
\<close>

theorem realloc_failure_keeps_original:
  assumes "ptr \<noteq> 0" and "sz \<noteq> 0" and "brk st AND 15 = 0"
  shows "(errno st \<noteq> ENOMEM \<and> realloc fuel st ptr sz = Some (ret, st')
            \<and> errno st' = ENOMEM
          \<longrightarrow> ret = 0 \<and> mem st' = mem st \<and> flist st' = flist st)
       \<and> (\<not> sz \<le> GETSIZE (mem st (FENCE_BACKWARD ptr)) - FENCE_OVERHEAD
            \<and> malloc_find_fit fuel (mem st) (flist st) (ROUNDUP_CHUNK sz) = Some 0
            \<and> \<not> grow_bytes st (ROUNDUP_CHUNK sz) \<le> brk_room st
            \<and> (PAGE_SIZE st \<noteq> 0 \<or> sc_pagesize st \<noteq> 0)
          \<longrightarrow> (\<exists>st1. realloc fuel st ptr sz = Some (0, st1) \<and> errno st1 = ENOMEM
                     \<and> mem st1 = mem st \<and> flist st1 = flist st))"
proof (rule conjI; rule impI)
  assume "errno st \<noteq> ENOMEM \<and> realloc fuel st ptr sz = Some (ret, st')
          \<and> errno st' = ENOMEM"
  then have a: "errno st \<noteq> ENOMEM" and b: "realloc fuel st ptr sz = Some (ret, st')"
    and c: "errno st' = ENOMEM" by simp_all
  from realloc_enomem_intact [OF assms a b c]
  show "ret = 0 \<and> mem st' = mem st \<and> flist st' = flist st" .
next
  assume "\<not> sz \<le> GETSIZE (mem st (FENCE_BACKWARD ptr)) - FENCE_OVERHEAD
          \<and> malloc_find_fit fuel (mem st) (flist st) (ROUNDUP_CHUNK sz) = Some 0
          \<and> \<not> grow_bytes st (ROUNDUP_CHUNK sz) \<le> brk_room st
          \<and> (PAGE_SIZE st \<noteq> 0 \<or> sc_pagesize st \<noteq> 0)"
  then have a: "\<not> sz \<le> GETSIZE (mem st (FENCE_BACKWARD ptr)) - FENCE_OVERHEAD"
    and b: "malloc_find_fit fuel (mem st) (flist st) (ROUNDUP_CHUNK sz) = Some 0"
    and c: "\<not> grow_bytes st (ROUNDUP_CHUNK sz) \<le> brk_room st"
    and d: "PAGE_SIZE st \<noteq> 0 \<or> sc_pagesize st \<noteq> 0" by simp_all
  from realloc_refused [OF assms(1,2) a b c d]
  show "\<exists>st1. realloc fuel st ptr sz = Some (0, st1) \<and> errno st1 = ENOMEM
              \<and> mem st1 = mem st \<and> flist st1 = flist st" .
qed

theorem realloc_failure_keeps_original_witness:
  "(0x10010 :: addr) \<noteq> 0 \<and> (5000 :: size_t) \<noteq> 0
   \<and> brk full_heap AND 15 = 0 \<and> errno full_heap \<noteq> ENOMEM
   \<and> \<not> 5000 \<le> GETSIZE (mem full_heap (FENCE_BACKWARD 0x10010)) - FENCE_OVERHEAD
   \<and> malloc_find_fit 0 (mem full_heap) (flist full_heap) (ROUNDUP_CHUNK 5000) = Some 0
   \<and> \<not> grow_bytes full_heap (ROUNDUP_CHUNK 5000) \<le> brk_room full_heap
   \<and> PAGE_SIZE full_heap \<noteq> 0
   \<and> realloc 0 full_heap 0x10010 5000
       = Some (0, full_heap\<lparr>brk_calls := 2, errno := ENOMEM\<rparr>)
   \<and> mem (full_heap\<lparr>brk_calls := 2, errno := ENOMEM\<rparr>) = mem full_heap
   \<and> flist (full_heap\<lparr>brk_calls := 2, errno := ENOMEM\<rparr>) = flist full_heap"
proof -
  have r: "realloc 0 full_heap 0x10010 5000
             = Some (0, full_heap\<lparr>brk_calls := 2, errno := ENOMEM\<rparr>)"
    by (simp add: realloc_def malloc_def malloc_expand_def get_memory_def full_heap_def
          malloc_find_fit.simps ROUNDUP_CHUNK_def ROUNDUP_16_def ROUNDUP_PAGE_def MAX_sz_def
          DIFF_OVERHEAD_def FENCE_OVERHEAD_def NODE_SIZE_def FENCE_SIZE_def GETSIZE_def
          FENCE_BACKWARD_def Let_def ENOMEM_def)
  have h: "(0x10010 :: addr) \<noteq> 0" "(5000 :: size_t) \<noteq> 0" "brk full_heap AND 15 = 0"
    by (simp_all add: full_heap_def)
  have e: "errno full_heap \<noteq> ENOMEM"
    "errno (full_heap\<lparr>brk_calls := 2, errno := ENOMEM\<rparr>) = ENOMEM"
    by (simp_all add: full_heap_def ENOMEM_def)
  have g: "\<not> 5000 \<le> GETSIZE (mem full_heap (FENCE_BACKWARD 0x10010)) - FENCE_OVERHEAD"
    "malloc_find_fit 0 (mem full_heap) (flist full_heap) (ROUNDUP_CHUNK 5000) = Some 0"
    "\<not> grow_bytes full_heap (ROUNDUP_CHUNK 5000) \<le> brk_room full_heap"
    "PAGE_SIZE full_heap \<noteq> 0"
    by (simp_all add: full_heap_def malloc_find_fit.simps grow_bytes_def ROUNDUP_CHUNK_def
          ROUNDUP_16_def ROUNDUP_PAGE_def MAX_sz_def DIFF_OVERHEAD_def FENCE_OVERHEAD_def
          NODE_SIZE_def FENCE_SIZE_def GETSIZE_def FENCE_BACKWARD_def)
  from realloc_failure_keeps_original [OF h, of 0 0 "full_heap\<lparr>brk_calls := 2, errno := ENOMEM\<rparr>"]
       e r
  have "mem (full_heap\<lparr>brk_calls := 2, errno := ENOMEM\<rparr>) = mem full_heap
        \<and> flist (full_heap\<lparr>brk_calls := 2, errno := ENOMEM\<rparr>) = flist full_heap"
    by blast
  with h e g r show ?thesis by blast
qed

section \<open>Release without coalescing\<close>

text \<open>
  Claim C4 as stated (after every entry point returns, any two adjacent free chunks have
  been coalesced) fails.  Two chunks that each take a whole page extent are allocated
  and released: \<^verbatim>\<open>p = malloc(4064); q = malloc(4080); free(p); free(q)\<close>.  Header and
  footer agree on every chunk and the free list is ascending, but the chunk at
  \<open>0x10008\<close> (4080 bytes, free) is directly followed by the chunk at \<open>0x10FF8\<close> (4096
  bytes, free).
\<close>

theorem adjacent_free_chunks_remain:
  "returned [Malloc 4064, Malloc 4080, Free 0x10010, Free 0x11000]
     = Some [0x10010, 0x11000, 0, 0]
   \<and> holds_after [Malloc 4064, Malloc 4080, Free 0x10010, Free 0x11000] (coalesced 8)
     = Some False
   \<and> holds_after [Malloc 4064, Malloc 4080, Free 0x10010, Free 0x11000] (fences_agree 8)
     = Some True
   \<and> holds_after [Malloc 4064, Malloc 4080, Free 0x10010, Free 0x11000] (flist_ascending 8)
     = Some True
   \<and> word_after [Malloc 4064, Malloc 4080, Free 0x10010, Free 0x11000] 0x10008 = Some 4080
   \<and> word_after [Malloc 4064, Malloc 4080, Free 0x10010, Free 0x11000] 0x10FF8 = Some 4096"
  by code_simp

text \<open>
  The release path, as the code has it.  The addresses of the words a release writes are
  compared as numbers, so that no sum below wraps around.
\<close>

lemma uint_plus: "uint (a :: addr) + uint b < 2 ^ 64 \<Longrightarrow> uint (a + b) = uint a + uint b"
  using uint_add_lem [of a b] by simp

lemma uint_minus: "uint (b :: addr) \<le> uint a \<Longrightarrow> uint (a - b) = uint a - uint b"
  using uint_sub_lem [of b a] by simp

lemma chunk_uints:
  assumes "chunk_ok c sz"
  shows "uint (c - 8) = uint c - 8" and "uint (PREV c) = uint c + 8"
    and "uint (NEXT c) = uint c + 16" and "uint (c + sz) = uint c + uint sz"
    and "uint (FENCE_BACKWARD (c + sz)) = uint c + uint sz - 8"
proof -
  from assms have b: "8 \<le> uint c" "32 \<le> uint sz" "uint c + uint sz + 8 \<le> 2 ^ 64"
    by (simp_all add: chunk_ok_def)
  from b show "uint (c - 8) = uint c - 8" by (simp add: uint_minus)
  from b show "uint (PREV c) = uint c + 8" by (simp add: uint_plus)
  from b show "uint (NEXT c) = uint c + 16" by (simp add: uint_plus)
  from b show s: "uint (c + sz) = uint c + uint sz" by (simp add: uint_plus)
  from b s show "uint (FENCE_BACKWARD (c + sz)) = uint c + uint sz - 8"
    by (simp add: FENCE_BACKWARD_def uint_minus)
qed

lemma node_uints:
  assumes "node_apart c sz n"
  shows "uint (PREV n) = uint n + 8" and "uint (NEXT n) = uint n + 16"
proof -
  from assms have b: "uint n + 32 \<le> 2 ^ 64" by (simp add: node_apart_def)
  from b show "uint (PREV n) = uint n + 8" by (simp add: uint_plus)
  from b show "uint (NEXT n) = uint n + 16" by (simp add: uint_plus)
qed

text \<open>The link words of a node apart from the chunk are none of the words of the chunk,
  nor the fence before it, nor the fence after it.\<close>

lemma link_words_apart:
  assumes "chunk_ok c sz" and "node_apart c sz n" and "x = PREV n \<or> x = NEXT n"
      and "y = c - 8 \<or> y = c \<or> y = PREV c \<or> y = NEXT c
           \<or> y = FENCE_BACKWARD (c + sz) \<or> y = c + sz"
  shows "x \<noteq> y"
proof
  assume "x = y"
  then have e: "uint x = uint y" by simp
  from assms(1) have b: "8 \<le> uint c" "32 \<le> uint sz" by (simp_all add: chunk_ok_def)
  from assms(3) node_uints [OF assms(2)]
  have x: "uint n + 8 \<le> uint x" "uint x \<le> uint n + 16" by auto
  from assms(4) chunk_uints [OF assms(1)] b
  have y: "uint c - 8 \<le> uint y" "uint y \<le> uint c + uint sz" by auto
  from assms(2) have "uint n + 32 \<le> uint c \<or> uint c + uint sz \<le> uint n"
    by (simp add: node_apart_def)
  with x y e show False by auto
qed

text \<open>The words of the chunk are distinct from each other and from the fences around.\<close>

lemma chunk_words_distinct:
  assumes "chunk_ok c sz"
  shows "FENCE_BACKWARD (c + sz) \<noteq> c" and "FENCE_BACKWARD (c + sz) \<noteq> PREV c"
    and "FENCE_BACKWARD (c + sz) \<noteq> NEXT c"
    and "c - 8 \<noteq> c" and "c - 8 \<noteq> PREV c" and "c - 8 \<noteq> NEXT c"
    and "c - 8 \<noteq> FENCE_BACKWARD (c + sz)"
    and "c + sz \<noteq> c" and "c + sz \<noteq> PREV c" and "c + sz \<noteq> NEXT c"
    and "c + sz \<noteq> FENCE_BACKWARD (c + sz)"
proof -
  from assms have b: "8 \<le> uint c" "32 \<le> uint sz" by (simp_all add: chunk_ok_def)
  note u = chunk_uints [OF assms]
  have ne: "\<And>x y :: addr. uint x \<noteq> uint y \<Longrightarrow> x \<noteq> y" by auto
  from b u show "FENCE_BACKWARD (c + sz) \<noteq> c" by (intro ne) simp
  from b u show "FENCE_BACKWARD (c + sz) \<noteq> PREV c" by (intro ne) simp
  from b u show "FENCE_BACKWARD (c + sz) \<noteq> NEXT c" by (intro ne) simp
  from b u show "c - 8 \<noteq> c" by (intro ne) simp
  from b u show "c - 8 \<noteq> PREV c" by (intro ne) simp
  from b u show "c - 8 \<noteq> NEXT c" by (intro ne) simp
  from b u show "c - 8 \<noteq> FENCE_BACKWARD (c + sz)" by (intro ne) simp
  from b u show "c + sz \<noteq> c" by (intro ne) simp
  from b u show "c + sz \<noteq> PREV c" by (intro ne) simp
  from b u show "c + sz \<noteq> NEXT c" by (intro ne) simp
  from b u show "c + sz \<noteq> FENCE_BACKWARD (c + sz)" by (intro ne) simp
qed

text \<open>The nodes of a null-terminated free list, and the walk of the insertion over it.\<close>

lemma free_nodes_unfold:
  assumes "free_nodes fuel m a = Some ns" and "a \<noteq> 0"
  shows "fuel \<noteq> 0 \<and> (\<exists>ns'. ns = a # ns'
           \<and> free_nodes (fuel - 1) m (m (NEXT a)) = Some ns')"
proof -
  from assms(2) have "free_nodes fuel m a
        = (if fuel = 0 then None
           else map_option (Cons a) (free_nodes (fuel - 1) m (m (NEXT a))))"
    by (subst free_nodes.simps) simp
  with assms(1) show ?thesis by (cases "fuel = 0") auto
qed

lemma free_nodes_head:
  assumes "free_nodes fuel m a = Some ns" and "a \<noteq> 0"
  shows "a \<in> set ns"
  using free_nodes_unfold [OF assms] by auto

lemma free_nodes_members:
  "free_nodes fuel m a = Some ns \<Longrightarrow> n \<in> set ns
     \<Longrightarrow> n \<noteq> 0 \<and> (m (NEXT n) = 0 \<or> m (NEXT n) \<in> set ns)"
proof (induction fuel m a arbitrary: ns rule: free_nodes.induct)
  case (1 fuel m a)
  show ?case
  proof (cases "a = 0")
    case True
    with "1.prems" show ?thesis by (simp add: free_nodes.simps [of fuel m 0])
  next
    case False
    from free_nodes_unfold [OF "1.prems"(1) False]
    obtain ns' where fu: "fuel \<noteq> 0" and ns: "ns = a # ns'"
      and rec: "free_nodes (fuel - 1) m (m (NEXT a)) = Some ns'" by blast
    show ?thesis
    proof (cases "n = a")
      case True
      show ?thesis
      proof (cases "m (NEXT a) = 0")
        case True
        with \<open>n = a\<close> False show ?thesis by simp
      next
        case nz: False
        from free_nodes_head [OF rec nz] True False ns show ?thesis by simp
      qed
    next
      case ne: False
      with "1.prems"(2) ns have "n \<in> set ns'" by simp
      from "1.IH" [OF False fu rec this] ns show ?thesis by auto
    qed
  qed
qed

lemma insert_walk_on_list:
  "free_nodes fuel m a = Some ns \<Longrightarrow> a \<noteq> 0
     \<Longrightarrow> \<exists>front. insert_walk fuel m a item = Some front \<and> front \<in> set ns
                 \<and> (m (NEXT front) = 0 \<or> \<not> m (NEXT front) < item)"
proof (induction fuel m a arbitrary: ns rule: free_nodes.induct)
  case (1 fuel m a)
  from free_nodes_unfold [OF "1.prems"]
  obtain ns' where fu: "fuel \<noteq> 0" and ns: "ns = a # ns'"
    and rec: "free_nodes (fuel - 1) m (m (NEXT a)) = Some ns'" by blast
  show ?case
  proof (cases "m (NEXT a) \<noteq> 0 \<and> m (NEXT a) < item")
    case True
    with "1.IH" [OF "1.prems"(2) fu rec]
    obtain front where "insert_walk (fuel - 1) m (m (NEXT a)) item = Some front"
      and "front \<in> set ns'" and "m (NEXT front) = 0 \<or> \<not> m (NEXT front) < item"
      by blast
    moreover from True fu have "insert_walk fuel m a item
            = insert_walk (fuel - 1) m (m (NEXT a)) item"
      by (subst insert_walk.simps) auto
    ultimately show ?thesis using ns by simp
  next
    case False
    then have "insert_walk fuel m a item = Some a"
      by (subst insert_walk.simps) auto
    with False ns show ?thesis by auto
  qed
qed

lemma insert_walk_cong:
  "free_nodes fuel m a = Some ns \<Longrightarrow> a \<noteq> 0
     \<Longrightarrow> \<forall>n \<in> set ns. m' (NEXT n) = m (NEXT n)
     \<Longrightarrow> insert_walk fuel m' a item = insert_walk fuel m a item"
proof (induction fuel m a arbitrary: ns rule: free_nodes.induct)
  case (1 fuel m a)
  from free_nodes_unfold [OF "1.prems"(1,2)]
  obtain ns' where fu: "fuel \<noteq> 0" and ns: "ns = a # ns'"
    and rec: "free_nodes (fuel - 1) m (m (NEXT a)) = Some ns'" by blast
  from "1.prems"(3) ns have same: "m' (NEXT a) = m (NEXT a)"
    and rest: "\<forall>n \<in> set ns'. m' (NEXT n) = m (NEXT n)" by simp_all
  show ?case
  proof (cases "m (NEXT a) \<noteq> 0 \<and> m (NEXT a) < item")
    case True
    with "1.IH" [OF "1.prems"(2) fu rec _ rest]
    have "insert_walk (fuel - 1) m' (m (NEXT a)) item
            = insert_walk (fuel - 1) m (m (NEXT a)) item" by simp
    moreover from True fu have "insert_walk fuel m a item
            = insert_walk (fuel - 1) m (m (NEXT a)) item"
      by (subst insert_walk.simps) auto
    moreover from True fu same have "insert_walk fuel m' a item
            = insert_walk (fuel - 1) m' (m (NEXT a)) item"
      by (subst insert_walk.simps) auto
    ultimately show ?thesis by simp
  next
    case False
    then have "insert_walk fuel m a item = Some a"
      by (subst insert_walk.simps) auto
    moreover from False same have "insert_walk fuel m' a item = Some a"
      by (subst insert_walk.simps) auto
    ultimately show ?thesis by simp
  qed
qed

text \<open>
  \<^verbatim>\<open>free\<close> marks the chunk free in header and footer, nulls its links, and inserts it.
\<close>

lemma SET_FREE_idem: "SET_FREE (SET_FREE x) = SET_FREE x"
  by (simp add: SET_FREE_def and.assoc)

lemma release_marks:
  assumes "chunk_ok c sz" and "sz = SET_FREE (m c)"
  shows "malloc_fnode_assign_free (m(c := SET_FREE (m c))) c ((m(c := SET_FREE (m c))) c)
           = marked_free m c sz"
proof -
  from assms(2) have i: "SET_FREE sz = sz" by (simp add: SET_FREE_idem)
  from chunk_words_distinct(1) [OF assms(1)] have ne: "FENCE_BACKWARD (c + sz) \<noteq> c" .
  show ?thesis
    unfolding malloc_fnode_assign_free_def marked_free_def Let_def assms(2) [symmetric]
    by (simp only: fun_upd_apply fun_upd_upd i ne if_True if_False refl)
qed

lemma marked_free_at:
  assumes "chunk_ok c sz"
  shows "marked_free m c sz c = sz" and "marked_free m c sz (FENCE_BACKWARD (c + sz)) = sz"
    and "marked_free m c sz (PREV c) = 0" and "marked_free m c sz (NEXT c) = 0"
    and "marked_free m c sz (c - 8) = m (c - 8)" and "marked_free m c sz (c + sz) = m (c + sz)"
  using chunk_words_distinct [OF assms] by (simp_all add: marked_free_def)

lemma marked_free_frame:
  "a \<notin> {c, PREV c, NEXT c, FENCE_BACKWARD (c + sz)} \<Longrightarrow> marked_free m c sz a = m a"
  by (simp add: marked_free_def)

lemma marked_free_link:
  assumes "chunk_ok c sz" and "node_apart c sz n"
  shows "marked_free m c sz (PREV n) = m (PREV n)" and "marked_free m c sz (NEXT n) = m (NEXT n)"
proof -
  note l = link_words_apart [OF assms]
  have "PREV n \<notin> {c, PREV c, NEXT c, FENCE_BACKWARD (c + sz)}"
    using l [of "PREV n" c] l [of "PREV n" "PREV c"] l [of "PREV n" "NEXT c"]
          l [of "PREV n" "FENCE_BACKWARD (c + sz)"] by blast
  then show "marked_free m c sz (PREV n) = m (PREV n)" by (rule marked_free_frame)
  have "NEXT n \<notin> {c, PREV c, NEXT c, FENCE_BACKWARD (c + sz)}"
    using l [of "NEXT n" c] l [of "NEXT n" "PREV c"] l [of "NEXT n" "NEXT c"]
          l [of "NEXT n" "FENCE_BACKWARD (c + sz)"] by blast
  then show "marked_free m c sz (NEXT n) = m (NEXT n)" by (rule marked_free_frame)
qed

lemma free_is_insert:
  assumes "chunk_ok c sz" and "sz = SET_FREE (mem st c)"
  shows "free fuel st (c + FENCE_SIZE)
           = malloc_list_addr_insert fuel (st\<lparr>mem := marked_free (mem st) c sz\<rparr>) c"
proof -
  from assms(1) have "uint (PREV c) = uint c + 8" by (rule chunk_uints)
  moreover from assms(1) have "8 \<le> uint c" by (simp add: chunk_ok_def)
  ultimately have "uint (PREV c) \<noteq> 0" by simp
  then have nz: "c + FENCE_SIZE \<noteq> 0" by (auto simp: FENCE_SIZE_def)
  have bk: "FENCE_BACKWARD (c + FENCE_SIZE) = c"
    by (simp add: FENCE_BACKWARD_def FENCE_SIZE_def)
  show ?thesis
    using nz release_marks [of c sz "mem st", OF assms]
    by (simp add: free_def malloc_fnode_release_def bk Let_def)
qed

text \<open>The two ways of the insertion, with the neighbours relinked.\<close>

lemma insert_at_head:
  assumes "flist st = 0 \<or> item < flist st"
  shows "malloc_list_addr_insert fuel st item
           = Some (st\<lparr>mem := (if flist st \<noteq> 0
                                then ((mem st)(PREV item := 0, NEXT item := flist st))
                                       (PREV (flist st) := item)
                                else (mem st)(PREV item := 0, NEXT item := flist st)),
                         flist := item\<rparr>)"
  using assms by (simp add: malloc_list_addr_insert_def link_neighbours_def Let_def)

lemma insert_after:
  assumes "\<not> (flist st = 0 \<or> item < flist st)"
      and "insert_walk fuel (mem st) (flist st) item = Some front"
      and "front \<noteq> 0" and "NEXT front \<noteq> PREV item" and "NEXT front \<noteq> NEXT item"
  shows "malloc_list_addr_insert fuel st item
           = Some (st\<lparr>mem := (if mem st (NEXT front) \<noteq> 0
                                then ((mem st)(PREV item := front,
                                               NEXT item := mem st (NEXT front),
                                               NEXT front := item))
                                       (PREV (mem st (NEXT front)) := item)
                                else (mem st)(PREV item := front,
                                              NEXT item := mem st (NEXT front),
                                              NEXT front := item))\<rparr>)"
proof -
  let ?m1 = "(mem st)(PREV item := front)"
  let ?m2 = "?m1(NEXT item := ?m1 (NEXT front))"
  from assms(4) have n1: "?m1 (NEXT front) = mem st (NEXT front)"
    by (simp only: fun_upd_apply if_False)
  have p2: "?m2 (PREV item) = front" by simp
  from assms(5) have x: "NEXT item \<noteq> NEXT front" by (rule not_sym)
  have l: "link_neighbours ?m2 item
             = (if mem st (NEXT front) \<noteq> 0
                then (?m2(NEXT front := item))(PREV (mem st (NEXT front)) := item)
                else ?m2(NEXT front := item))"
  proof -
    have "(?m2(NEXT front := item)) (NEXT item) = mem st (NEXT front)"
      using x n1 by (simp only: fun_upd_apply if_False if_True refl)
    with p2 assms(3) show ?thesis
      by (simp only: link_neighbours_def Let_def if_True not_False_eq_True refl)
  qed
  from assms(1,2) have "malloc_list_addr_insert fuel st item
      = Some (st\<lparr>mem := link_neighbours ?m2 item\<rparr>)"
    by (simp add: malloc_list_addr_insert_def Let_def)
  with l n1 show ?thesis by (simp only:)
qed

lemma relinked_values:
  fixes M :: heap
  assumes "pc \<noteq> c" and "nc \<noteq> c" and "nc \<noteq> pc"
      and "F \<noteq> c" and "F \<noteq> pc" and "F \<noteq> nc"
      and "nxt \<noteq> 0 \<longrightarrow> N \<noteq> c \<and> N \<noteq> pc \<and> N \<noteq> nc"
      and "R = (if nxt \<noteq> 0 then (M(pc := front, nc := nxt, F := c))(N := c)
                else M(pc := front, nc := nxt, F := c))"
  shows "R c = M c" and "R pc = front" and "R nc = nxt" and "R F = c"
    and "nxt \<noteq> 0 \<longrightarrow> R N = c"
    and "\<And>x. x \<notin> {pc, nc, F} \<Longrightarrow> nxt = 0 \<or> x \<noteq> N \<Longrightarrow> R x = M x"
  using assms by auto

lemma headed_values:
  fixes M :: heap
  assumes "pc \<noteq> c" and "nc \<noteq> c" and "nc \<noteq> pc"
      and "fl \<noteq> 0 \<longrightarrow> N \<noteq> c \<and> N \<noteq> pc \<and> N \<noteq> nc"
      and "R = (if fl \<noteq> 0 then (M(pc := 0, nc := fl))(N := c) else M(pc := 0, nc := fl))"
  shows "R c = M c" and "R pc = 0" and "R nc = fl"
    and "fl \<noteq> 0 \<longrightarrow> R N = c"
    and "\<And>x. x \<notin> {pc, nc} \<Longrightarrow> fl = 0 \<or> x \<noteq> N \<Longrightarrow> R x = M x"
  using assms by auto

lemma insert_walk_below:
  "insert_walk fuel m a item = Some front \<Longrightarrow> front = a \<or> front < item"
proof (induction fuel m a item rule: insert_walk.induct)
  case (1 fuel m front0 item)
  show ?case
  proof (cases "m (NEXT front0) \<noteq> 0 \<and> m (NEXT front0) < item")
    case True
    with "1.prems" have fu: "fuel \<noteq> 0"
      and rec: "insert_walk (fuel - 1) m (m (NEXT front0)) item = Some front"
      by (auto simp: insert_walk.simps [of fuel m front0 item] split: if_splits)
    from "1.IH" [OF True fu rec] True show ?thesis by auto
  next
    case False
    then have "insert_walk fuel m front0 item = Some front0"
      by (subst insert_walk.simps) auto
    with "1.prems" show ?thesis by simp
  qed
qed

lemma node_not_chunk:
  assumes "chunk_ok c sz" and "node_apart c sz n"
  shows "n \<noteq> c"
proof
  assume "n = c"
  with assms(2) have "uint c + 32 \<le> uint c \<or> uint c + uint sz \<le> uint c"
    by (simp add: node_apart_def)
  moreover from assms(1) have "32 \<le> uint sz" by (simp add: chunk_ok_def)
  ultimately show False by auto
qed

lemma apart_facts:
  assumes "chunk_ok c sz" and "node_apart c sz n"
  shows "PREV n \<noteq> c \<and> PREV n \<noteq> PREV c \<and> PREV n \<noteq> NEXT c"
    and "NEXT n \<noteq> c" and "NEXT n \<noteq> PREV c" and "NEXT n \<noteq> NEXT c"
    and "FENCE_BACKWARD (c + sz) \<noteq> PREV n" and "FENCE_BACKWARD (c + sz) \<noteq> NEXT n"
    and "c - 8 \<noteq> PREV n" and "c - 8 \<noteq> NEXT n"
    and "c + sz \<noteq> PREV n" and "c + sz \<noteq> NEXT n"
proof -
  note l = link_words_apart [OF assms]
  show "PREV n \<noteq> c \<and> PREV n \<noteq> PREV c \<and> PREV n \<noteq> NEXT c"
    using l [of "PREV n" c] l [of "PREV n" "PREV c"] l [of "PREV n" "NEXT c"] by auto
  show "NEXT n \<noteq> c" using l [of "NEXT n" c] by auto
  show "NEXT n \<noteq> PREV c" using l [of "NEXT n" "PREV c"] by auto
  show "NEXT n \<noteq> NEXT c" using l [of "NEXT n" "NEXT c"] by auto
  show "FENCE_BACKWARD (c + sz) \<noteq> PREV n"
    using l [of "PREV n" "FENCE_BACKWARD (c + sz)"] by auto
  show "FENCE_BACKWARD (c + sz) \<noteq> NEXT n"
    using l [of "NEXT n" "FENCE_BACKWARD (c + sz)"] by auto
  show "c - 8 \<noteq> PREV n" using l [of "PREV n" "c - 8"] by auto
  show "c - 8 \<noteq> NEXT n" using l [of "NEXT n" "c - 8"] by auto
  show "c + sz \<noteq> PREV n" using l [of "PREV n" "c + sz"] by auto
  show "c + sz \<noteq> NEXT n" using l [of "NEXT n" "c + sz"] by auto
qed

lemma own_words: "PREV c \<noteq> (c :: addr)" "NEXT c \<noteq> (c :: addr)" "NEXT c \<noteq> PREV c"
  by simp_all

lemma release_at_head:
  assumes ok: "chunk_ok c sz" and sz: "sz = SET_FREE (mem st c)"
      and ns: "free_nodes fuel (mem st) (flist st) = Some ns"
      and ap: "list_all (node_apart c sz) ns"
      and hd: "flist st = 0 \<or> c < flist st"
  shows "\<exists>st'. free fuel st (c + FENCE_SIZE) = Some st'
           \<and> st'\<lparr>mem := mem st, flist := flist st\<rparr> = st
           \<and> mem st' c = sz \<and> mem st' (FENCE_BACKWARD (c + sz)) = sz
           \<and> mem st' (c - 8) = mem st (c - 8) \<and> mem st' (c + sz) = mem st (c + sz)
           \<and> flist st' = c \<and> mem st' (PREV c) = 0 \<and> mem st' (NEXT c) = flist st
           \<and> (flist st = 0 \<or> mem st' (PREV (flist st)) = c)
           \<and> (\<forall>a. a AND 7 = 0 \<and> a \<notin> {c, PREV c, NEXT c, FENCE_BACKWARD (c + sz)}
                    \<and> (flist st = 0 \<or> a \<noteq> PREV (flist st))
                  \<longrightarrow> mem st' a = mem st a)"
proof -
  let ?M = "marked_free (mem st) c sz"
  let ?fl = "flist st"
  let ?f = "FENCE_BACKWARD (c + sz)"
  define R where "R = (if ?fl \<noteq> 0 then (?M(PREV c := 0, NEXT c := ?fl))(PREV ?fl := c)
                       else ?M(PREV c := 0, NEXT c := ?fl))"
  define st' where "st' = st\<lparr>mem := R, flist := c\<rparr>"
  from hd have "malloc_list_addr_insert fuel (st\<lparr>mem := ?M\<rparr>) c = Some st'"
    using insert_at_head [of "st\<lparr>mem := ?M\<rparr>" c fuel]
    by (simp add: st'_def R_def)
  with free_is_insert [OF ok sz] have fr: "free fuel st (c + FENCE_SIZE) = Some st'" by simp
  have fl: "?fl \<noteq> 0 \<longrightarrow> node_apart c sz ?fl"
    using free_nodes_head [OF ns] ap by (auto simp: list_all_iff)
  have d: "?fl \<noteq> 0 \<longrightarrow> PREV ?fl \<noteq> c \<and> PREV ?fl \<noteq> PREV c \<and> PREV ?fl \<noteq> NEXT c"
    using fl apart_facts(1) [OF ok] by blast
  note v = headed_values [OF own_words d R_def]
  note cw = chunk_words_distinct [OF ok]
  note mf = marked_free_at [OF ok]
  have x1: "?fl = 0 \<or> ?f \<noteq> PREV ?fl" using fl apart_facts(5) [OF ok] by blast
  have x2: "?fl = 0 \<or> c - 8 \<noteq> PREV ?fl" using fl apart_facts(7) [OF ok] by blast
  have x3: "?fl = 0 \<or> c + sz \<noteq> PREV ?fl" using fl apart_facts(9) [OF ok] by blast
  have m: "mem st' = R" "flist st' = c" by (simp_all add: st'_def)
  have "st'\<lparr>mem := mem st, flist := flist st\<rparr> = st" by (simp add: st'_def)
  moreover have "mem st' c = sz" using v(1) mf(1) m by simp
  moreover have "mem st' ?f = sz"
    using v(5) [of ?f] cw(2,3) x1 mf(2) m by simp
  moreover have "mem st' (c - 8) = mem st (c - 8)"
    using v(5) [of "c - 8"] cw(5,6) x2 mf(5) m by simp
  moreover have "mem st' (c + sz) = mem st (c + sz)"
    using v(5) [of "c + sz"] cw(9,10) x3 mf(6) m by simp
  moreover have "mem st' (PREV c) = 0" "mem st' (NEXT c) = ?fl"
    using v(2,3) m by simp_all
  moreover have "?fl = 0 \<or> mem st' (PREV ?fl) = c" using v(4) m by auto
  moreover have "\<forall>a. a AND 7 = 0 \<and> a \<notin> {c, PREV c, NEXT c, ?f} \<and> (?fl = 0 \<or> a \<noteq> PREV ?fl)
                   \<longrightarrow> mem st' a = mem st a"
  proof (intro allI impI)
    fix a
    assume a: "a AND 7 = 0 \<and> a \<notin> {c, PREV c, NEXT c, ?f} \<and> (?fl = 0 \<or> a \<noteq> PREV ?fl)"
    then have "R a = ?M a" using v(5) [of a] by blast
    moreover from a have "?M a = mem st a" by (intro marked_free_frame) simp
    ultimately show "mem st' a = mem st a" using m by simp
  qed
  ultimately show ?thesis using fr m by blast
qed

lemma release_after_node:
  assumes ok: "chunk_ok c sz" and sz: "sz = SET_FREE (mem st c)"
      and ns: "free_nodes fuel (mem st) (flist st) = Some ns"
      and ap: "list_all (node_apart c sz) ns"
      and wk: "\<not> (flist st = 0 \<or> c < flist st)"
  shows "\<exists>st'. free fuel st (c + FENCE_SIZE) = Some st'
           \<and> st'\<lparr>mem := mem st, flist := flist st\<rparr> = st
           \<and> mem st' c = sz \<and> mem st' (FENCE_BACKWARD (c + sz)) = sz
           \<and> mem st' (c - 8) = mem st (c - 8) \<and> mem st' (c + sz) = mem st (c + sz)
           \<and> (\<exists>front. insert_walk fuel (mem st) (flist st) c = Some front
                \<and> front \<in> set ns \<and> front < c
                \<and> (mem st (NEXT front) = 0 \<or> \<not> mem st (NEXT front) < c)
                \<and> flist st' = flist st \<and> mem st' (PREV c) = front
                \<and> mem st' (NEXT c) = mem st (NEXT front)
                \<and> mem st' (NEXT front) = c
                \<and> (mem st (NEXT front) = 0
                     \<or> mem st' (PREV (mem st (NEXT front))) = c)
                \<and> (\<forall>a. a AND 7 = 0 \<and> a \<notin> {c, PREV c, NEXT c, FENCE_BACKWARD (c + sz), NEXT front}
                         \<and> (mem st (NEXT front) = 0
                              \<or> a \<noteq> PREV (mem st (NEXT front)))
                       \<longrightarrow> mem st' a = mem st a))"
proof -
  let ?M = "marked_free (mem st) c sz"
  let ?fl = "flist st"
  let ?f = "FENCE_BACKWARD (c + sz)"
  from wk have flnz: "?fl \<noteq> 0" and nlt: "\<not> c < ?fl" by simp_all
  from ap have all: "\<forall>n \<in> set ns. node_apart c sz n" by (simp add: list_all_iff)
  from insert_walk_on_list [OF ns flnz, of c]
  obtain front where w: "insert_walk fuel (mem st) ?fl c = Some front"
    and fin: "front \<in> set ns"
    and stop: "mem st (NEXT front) = 0 \<or> \<not> mem st (NEXT front) < c" by blast
  let ?nxt = "mem st (NEXT front)"
  from all fin have fa: "node_apart c sz front" by blast
  from free_nodes_members [OF ns fin]
  have fnz: "front \<noteq> 0" and nin: "?nxt = 0 \<or> ?nxt \<in> set ns" by simp_all
  from nin all have na: "?nxt \<noteq> 0 \<longrightarrow> node_apart c sz ?nxt" by blast
  have below: "front < c"
  proof -
    from insert_walk_below [OF w] have "front = ?fl \<or> front < c" .
    moreover from nlt have "?fl \<le> c" by simp
    moreover from node_not_chunk [OF ok fa] have "front \<noteq> c" .
    ultimately show ?thesis by auto
  qed
  have same: "\<forall>n \<in> set ns. ?M (NEXT n) = mem st (NEXT n)"
    using all marked_free_link(2) [OF ok] by blast
  from insert_walk_cong [OF ns flnz same, of c] w
  have wM: "insert_walk fuel ?M ?fl c = Some front" by simp
  have nM: "?M (NEXT front) = ?nxt" using marked_free_link(2) [OF ok fa] .
  define R where "R = (if ?nxt \<noteq> 0
                       then (?M(PREV c := front, NEXT c := ?nxt, NEXT front := c))
                              (PREV ?nxt := c)
                       else ?M(PREV c := front, NEXT c := ?nxt, NEXT front := c))"
  define st' where "st' = st\<lparr>mem := R\<rparr>"
  note af = apart_facts [OF ok fa]
  have "malloc_list_addr_insert fuel (st\<lparr>mem := ?M\<rparr>) c = Some st'"
    using insert_after [of "st\<lparr>mem := ?M\<rparr>" c fuel front] wk wM fnz af(3,4) nM
    by (simp add: st'_def R_def)
  with free_is_insert [OF ok sz] have fr: "free fuel st (c + FENCE_SIZE) = Some st'" by simp
  have d: "?nxt \<noteq> 0 \<longrightarrow> PREV ?nxt \<noteq> c \<and> PREV ?nxt \<noteq> PREV c \<and> PREV ?nxt \<noteq> NEXT c"
    using na apart_facts(1) [OF ok] by blast
  note v = relinked_values [OF own_words af(2,3,4) d R_def]
  note cw = chunk_words_distinct [OF ok]
  note mf = marked_free_at [OF ok]
  have x1: "?nxt = 0 \<or> ?f \<noteq> PREV ?nxt" using na apart_facts(5) [OF ok] by blast
  have x2: "?nxt = 0 \<or> c - 8 \<noteq> PREV ?nxt" using na apart_facts(7) [OF ok] by blast
  have x3: "?nxt = 0 \<or> c + sz \<noteq> PREV ?nxt" using na apart_facts(9) [OF ok] by blast
  have m: "mem st' = R" "flist st' = ?fl" by (simp_all add: st'_def)
  have "st'\<lparr>mem := mem st, flist := flist st\<rparr> = st" by (simp add: st'_def)
  moreover have "mem st' c = sz" using v(1) mf(1) m by simp
  moreover have "mem st' ?f = sz"
    using v(6) [of ?f] cw(2,3) af(6) x1 mf(2) m by simp
  moreover have "mem st' (c - 8) = mem st (c - 8)"
    using v(6) [of "c - 8"] cw(5,6) af(8) x2 mf(5) m by simp
  moreover have "mem st' (c + sz) = mem st (c + sz)"
    using v(6) [of "c + sz"] cw(9,10) af(10) x3 mf(6) m by simp
  moreover have "mem st' (PREV c) = front" "mem st' (NEXT c) = ?nxt"
    "mem st' (NEXT front) = c"
    using v(2,3,4) m by simp_all
  moreover have "?nxt = 0 \<or> mem st' (PREV ?nxt) = c" using v(5) m by auto
  moreover have "\<forall>a. a AND 7 = 0 \<and> a \<notin> {c, PREV c, NEXT c, ?f, NEXT front}
                       \<and> (?nxt = 0 \<or> a \<noteq> PREV ?nxt)
                   \<longrightarrow> mem st' a = mem st a"
  proof (intro allI impI)
    fix a
    assume a: "a AND 7 = 0 \<and> a \<notin> {c, PREV c, NEXT c, ?f, NEXT front} \<and> (?nxt = 0 \<or> a \<noteq> PREV ?nxt)"
    then have "R a = ?M a" using v(6) [of a] by blast
    moreover from a have "?M a = mem st a" by (intro marked_free_frame) simp
    ultimately show "mem st' a = mem st a" using m by simp
  qed
  ultimately show ?thesis using fr m w fin below stop by blast
qed

text \<open>The heap \<open>two_chunks\<close> is what the three calls leave.\<close>

lemma two_chunks_reached:
  "run_from 0 [] virgin [Malloc 4064, Malloc 4080, Free 0x10010]
     = Some ([0x10010, 0x11000, 0], two_chunks)"
  by (simp add: malloc_def free_def malloc_fnode_release_def malloc_find_fit.simps
        malloc_expand_def get_memory_def
        malloc_list_addr_insert_def link_neighbours_def malloc_fnode_split_def
        malloc_list_remove_def malloc_fnode_assign_free_def malloc_fnode_assign_used_def
        virgin_def two_chunks_def ROUNDUP_CHUNK_def ROUNDUP_16_def ROUNDUP_PAGE_def MAX_sz_def
        DIFF_OVERHEAD_def FENCE_OVERHEAD_def NODE_OVERHEAD_def NODE_SIZE_def FENCE_SIZE_def
        FENCE_BACKWARD_def SET_FREE_def SET_USED_def Let_def fun_eq_iff
        grant_def revoke_def holds_def)

text \<open>
  Claim C4, as the code has it.  The release path attempts no fusion: the calls of
  \<^verbatim>\<open>malloc_fnode_fuse_up\<close> and \<^verbatim>\<open>malloc_fnode_fuse_down\<close> are commented out.  Let the
  chunk at \<open>c\<close> have the size \<open>sz\<close> in its header (used bit apart), and let the free list
  be null-terminated with every node apart from the chunk.  Then \<^verbatim>\<open>free(c + 8)\<close> returns.
  It changes nothing of the state but memory and the head of the list.  Header and footer
  of the chunk hold \<open>sz\<close>, the size it had: nothing is added to it.  The fence word
  before the chunk (the footer of the chunk below) and the word after its footer (the
  header of the chunk above) are as they were, free or not.  The chunk is linked into
  the list in address order: as the new head when the list is empty or begins above
  \<open>c\<close>, with the old head as its successor; otherwise after the node \<open>front\<close> at which the
  walk over the list stops, a node below \<open>c\<close> whose successor is null or not below \<open>c\<close>,
  and before that successor.  Every other word at a multiple of 8 is unchanged.  So
  adjacent free chunks stay separate chunks.
\<close>

theorem release_relinks_without_fusion:
  assumes "chunk_ok c sz" and "sz = SET_FREE (mem st c)"
      and "free_nodes fuel (mem st) (flist st) = Some ns"
      and "list_all (node_apart c sz) ns"
  shows "\<exists>st'. free fuel st (c + FENCE_SIZE) = Some st'
           \<and> st'\<lparr>mem := mem st, flist := flist st\<rparr> = st
           \<and> mem st' c = sz \<and> mem st' (FENCE_BACKWARD (c + sz)) = sz
           \<and> mem st' (c - 8) = mem st (c - 8) \<and> mem st' (c + sz) = mem st (c + sz)
           \<and> (if flist st = 0 \<or> c < flist st
               then flist st' = c \<and> mem st' (PREV c) = 0 \<and> mem st' (NEXT c) = flist st
                    \<and> (flist st = 0 \<or> mem st' (PREV (flist st)) = c)
                    \<and> (\<forall>a. a AND 7 = 0 \<and> a \<notin> {c, PREV c, NEXT c, FENCE_BACKWARD (c + sz)}
                             \<and> (flist st = 0 \<or> a \<noteq> PREV (flist st))
                           \<longrightarrow> mem st' a = mem st a)
               else \<exists>front. insert_walk fuel (mem st) (flist st) c = Some front
                    \<and> front \<in> set ns \<and> front < c
                    \<and> (mem st (NEXT front) = 0 \<or> \<not> mem st (NEXT front) < c)
                    \<and> flist st' = flist st \<and> mem st' (PREV c) = front
                    \<and> mem st' (NEXT c) = mem st (NEXT front)
                    \<and> mem st' (NEXT front) = c
                    \<and> (mem st (NEXT front) = 0
                         \<or> mem st' (PREV (mem st (NEXT front))) = c)
                    \<and> (\<forall>a. a AND 7 = 0 \<and> a \<notin> {c, PREV c, NEXT c, FENCE_BACKWARD (c + sz), NEXT front}
                             \<and> (mem st (NEXT front) = 0
                                  \<or> a \<noteq> PREV (mem st (NEXT front)))
                           \<longrightarrow> mem st' a = mem st a))"
proof (cases "flist st = 0 \<or> c < flist st")
  case True
  from release_at_head [OF assms True] show ?thesis
    by (simp only: True if_True)
next
  case False
  from release_after_node [OF assms False] show ?thesis
    by (simp only: False if_False)
qed

theorem release_relinks_without_fusion_witness:
  "run_from 0 [] virgin [Malloc 4064, Malloc 4080, Free 0x10010]
     = Some ([0x10010, 0x11000, 0], two_chunks)
   \<and> chunk_ok 0x10FF8 4096 \<and> SET_FREE (mem two_chunks 0x10FF8) = 4096
   \<and> free_nodes 1 (mem two_chunks) (flist two_chunks) = Some [0x10008]
   \<and> list_all (node_apart 0x10FF8 4096) [0x10008]
   \<and> mem two_chunks 0x10008 = 4080 \<and> mem two_chunks 0x10FF0 = 4080
   \<and> (\<exists>st'. free 1 two_chunks 0x11000 = Some st'
          \<and> mem st' 0x10FF8 = 4096 \<and> mem st' 0x11FF0 = 4096
          \<and> mem st' 0x10008 = 4080 \<and> mem st' 0x10FF0 = 4080
          \<and> flist st' = 0x10008 \<and> mem st' 0x10018 = 0x10FF8
          \<and> mem st' 0x11000 = 0x10008 \<and> mem st' 0x11008 = 0)"
proof -
  have ok: "chunk_ok 0x10FF8 4096"
    by (simp add: chunk_ok_def)
  have sz: "(4096 :: size_t) = SET_FREE (mem two_chunks 0x10FF8)"
    by (simp add: two_chunks_def SET_FREE_def)
  have ns: "free_nodes 1 (mem two_chunks) (flist two_chunks) = Some [0x10008]"
    by (simp add: free_nodes.simps two_chunks_def)
  have ap: "list_all (node_apart 0x10FF8 4096) [0x10008]"
    by (simp add: node_apart_def)
  have fl: "flist two_chunks = 0x10008"
    by (simp add: two_chunks_def)
  have nh: "\<not> (flist two_chunks = 0 \<or> (0x10FF8 :: addr) < flist two_chunks)"
    by (simp add: fl)
  have old: "mem two_chunks 0x10008 = 4080" "mem two_chunks 0x10FF0 = 4080"
       "mem two_chunks 0x10018 = 0"
    by (simp_all add: two_chunks_def)
  have w: "insert_walk 1 (mem two_chunks) 0x10008 0x10FF8 = Some 0x10008"
    by (simp add: insert_walk.simps old)
  note t = release_relinks_without_fusion [of "0x10FF8" 4096 two_chunks 1 "[0x10008]",
             OF ok sz ns ap]
  from t obtain st' where
    r: "free 1 two_chunks (0x10FF8 + FENCE_SIZE) = Some st'"
    and h: "mem st' 0x10FF8 = 4096" "mem st' (FENCE_BACKWARD (0x10FF8 + 4096)) = 4096"
           "mem st' (0x10FF8 - 8) = mem two_chunks (0x10FF8 - 8)"
    and e: "if flist two_chunks = 0 \<or> (0x10FF8 :: addr) < flist two_chunks
            then flist st' = 0x10FF8 \<and> mem st' (PREV 0x10FF8) = 0
                 \<and> mem st' (NEXT 0x10FF8) = flist two_chunks
                 \<and> (flist two_chunks = 0 \<or> mem st' (PREV (flist two_chunks)) = 0x10FF8)
                 \<and> (\<forall>a. a AND 7 = 0 \<and> a \<notin> {0x10FF8, PREV 0x10FF8, NEXT 0x10FF8,
                              FENCE_BACKWARD (0x10FF8 + 4096)}
                          \<and> (flist two_chunks = 0 \<or> a \<noteq> PREV (flist two_chunks))
                        \<longrightarrow> mem st' a = mem two_chunks a)
            else \<exists>front. insert_walk 1 (mem two_chunks) (flist two_chunks) 0x10FF8 = Some front
                 \<and> front \<in> set [0x10008] \<and> front < 0x10FF8
                 \<and> (mem two_chunks (NEXT front) = 0
                      \<or> \<not> mem two_chunks (NEXT front) < 0x10FF8)
                 \<and> flist st' = flist two_chunks \<and> mem st' (PREV 0x10FF8) = front
                 \<and> mem st' (NEXT 0x10FF8) = mem two_chunks (NEXT front)
                 \<and> mem st' (NEXT front) = 0x10FF8
                 \<and> (mem two_chunks (NEXT front) = 0
                      \<or> mem st' (PREV (mem two_chunks (NEXT front))) = 0x10FF8)
                 \<and> (\<forall>a. a AND 7 = 0 \<and> a \<notin> {0x10FF8, PREV 0x10FF8, NEXT 0x10FF8,
                              FENCE_BACKWARD (0x10FF8 + 4096), NEXT front}
                          \<and> (mem two_chunks (NEXT front) = 0
                               \<or> a \<noteq> PREV (mem two_chunks (NEXT front)))
                        \<longrightarrow> mem st' a = mem two_chunks a)"
    by blast
  from e nh obtain front where
    f: "insert_walk 1 (mem two_chunks) (flist two_chunks) 0x10FF8 = Some front"
    and l: "flist st' = flist two_chunks" "mem st' (PREV 0x10FF8) = front"
           "mem st' (NEXT 0x10FF8) = mem two_chunks (NEXT front)"
           "mem st' (NEXT front) = 0x10FF8"
    and fr: "\<forall>a. a AND 7 = 0 \<and> a \<notin> {0x10FF8, PREV 0x10FF8, NEXT 0x10FF8,
                        FENCE_BACKWARD (0x10FF8 + 4096), NEXT front}
                   \<and> (mem two_chunks (NEXT front) = 0
                        \<or> a \<noteq> PREV (mem two_chunks (NEXT front)))
                 \<longrightarrow> mem st' a = mem two_chunks a"
    by (simp only: if_False) blast
  from f w have front: "front = 0x10008" by (simp add: fl)
  have r': "free 1 two_chunks 0x11000 = Some st'"
    using r by (simp add: FENCE_SIZE_def)
  have c1: "mem st' 0x11FF0 = 4096" using h(2) by (simp add: FENCE_BACKWARD_def)
  have c2: "mem st' 0x10FF0 = 4080" using h(3) old(2) by simp
  have c3: "mem st' 0x10018 = 0x10FF8" using l(4) by (simp add: front)
  have c4: "mem st' 0x11000 = 0x10008" using l(2) by (simp add: front)
  have c5: "mem st' 0x11008 = 0" using l(3) old(3) by (simp add: front)
  have c6: "flist st' = 0x10008" using l(1) fl by simp
  have "mem st' 0x10008 = mem two_chunks 0x10008"
    using fr old(3) by (simp add: front FENCE_BACKWARD_def)
  then have c7: "mem st' 0x10008 = 4080" using old(1) by simp
  from r' h(1) c1 c2 c3 c4 c5 c6 c7
  have "\<exists>st'. free 1 two_chunks 0x11000 = Some st'
          \<and> mem st' 0x10FF8 = 4096 \<and> mem st' 0x11FF0 = 4096
          \<and> mem st' 0x10008 = 4080 \<and> mem st' 0x10FF0 = 4080
          \<and> flist st' = 0x10008 \<and> mem st' 0x10018 = 0x10FF8
          \<and> mem st' 0x11000 = 0x10008 \<and> mem st' 0x11008 = 0"
    by blast
  with two_chunks_reached ok sz [symmetric] ns ap old(1,2) show ?thesis
    by blast
qed

section \<open>Requests of size zero\<close>

text \<open>
  \<^verbatim>\<open>malloc\<close> has no case for the size zero: the request is rounded up to the minimal
  chunk of 32 bytes, as every request of at most 16 bytes is, and the call is the same
  computation.  When the first-fit search finds a node, the call returns the address 8
  bytes past it, whatever that node is.
\<close>

lemma ROUNDUP_CHUNK_small: "n \<le> 16 \<Longrightarrow> ROUNDUP_CHUNK n = 32"
  by (simp add: ROUNDUP_CHUNK_def MAX_sz_def DIFF_OVERHEAD_def FENCE_OVERHEAD_def
        NODE_SIZE_def FENCE_SIZE_def ROUNDUP_16_def)

lemma find_fit_remove_walk:
  "malloc_find_fit fuel m a sz = Some f \<Longrightarrow> f \<noteq> 0 \<Longrightarrow> a \<noteq> f
     \<Longrightarrow> \<exists>front. remove_walk fuel m a f = Some front"
proof (induction fuel m a sz rule: malloc_find_fit.induct)
  case (1 fuel m target sz)
  from "1.prems" have t: "target \<noteq> 0" and small: "\<not> sz \<le> m target"
    and fu: "fuel \<noteq> 0"
    and rec: "malloc_find_fit (fuel - 1) m (m (NEXT target)) sz = Some f"
    by (auto simp: malloc_find_fit.simps [of fuel m target sz] split: if_splits)
  show ?case
  proof (cases "m (NEXT target) = f")
    case True
    with t show ?thesis by (simp add: remove_walk.simps [of fuel m target f])
  next
    case False
    with "1.IH" t small fu rec "1.prems"(2)
    obtain front where "remove_walk (fuel - 1) m (m (NEXT target)) f = Some front"
      by auto
    with t False fu show ?thesis by (simp add: remove_walk.simps [of fuel m target f])
  qed
qed

lemma malloc_list_remove_head:
  "flist st = node \<Longrightarrow> \<exists>st'. malloc_list_remove fuel st node = Some st'"
  by (simp add: malloc_list_remove_def Let_def)

lemma malloc_list_remove_found:
  assumes "malloc_find_fit fuel (mem st) (flist st) sz = Some node" and "node \<noteq> 0"
  shows "\<exists>st'. malloc_list_remove fuel st node = Some st'"
proof (cases "flist st = node")
  case True
  then show ?thesis by (rule malloc_list_remove_head)
next
  case False
  from find_fit_remove_walk [OF assms(1,2) False]
  obtain front where "remove_walk fuel (mem st) (flist st) node = Some front" ..
  with False show ?thesis by (simp add: malloc_list_remove_def Let_def)
qed

lemma malloc_fnode_split_returns:
  assumes "NODE_OVERHEAD \<le> mem st node - sz \<or> (\<exists>st1. malloc_list_remove fuel st node = Some st1)"
  shows "\<exists>st'. malloc_fnode_split fuel st node sz = Some (node + FENCE_SIZE, st')"
proof (cases "NODE_OVERHEAD \<le> mem st node - sz")
  case True
  then show ?thesis by (simp add: malloc_fnode_split_def Let_def)
next
  case False
  with assms obtain st1 where "malloc_list_remove fuel st node = Some st1" by auto
  with False show ?thesis by (simp add: malloc_fnode_split_def Let_def)
qed

lemma malloc_fit:
  assumes "malloc_find_fit fuel (mem st) (flist st) (ROUNDUP_CHUNK n) = Some fit" and "fit \<noteq> 0"
  shows "\<exists>st'. malloc fuel st n = Some (fit + FENCE_SIZE, st')"
proof -
  from malloc_list_remove_found [OF assms]
  have "\<exists>st'. malloc_fnode_split fuel st fit (ROUNDUP_CHUNK n) = Some (fit + FENCE_SIZE, st')"
    by (intro malloc_fnode_split_returns) simp
  with assms show ?thesis by (simp add: malloc_def Let_def)
qed

lemma malloc_small_same:
  assumes "n \<le> 16"
  shows "malloc fuel st 0 = malloc fuel st n"
proof -
  from assms have "ROUNDUP_CHUNK n = ROUNDUP_CHUNK 0"
    by (simp add: ROUNDUP_CHUNK_small)
  then show ?thesis by (simp add: malloc_def)
qed

text \<open>
  Claim C10 (\<^verbatim>\<open>malloc(0)\<close> is rounded up to 32 bytes, allocated normally, and returns a
  non-null 16-byte aligned payload whenever memory is available).  The rounding is as
  claimed and the first \<^verbatim>\<open>malloc(0)\<close> of a process returns \<open>0x10010\<close>.  But the chunk
  handed out is not one of 32 bytes: its header records 4080 bytes with the used bit
  (the defect of \<^verbatim>\<open>malloc_fnode_split\<close>), so \<^verbatim>\<open>realloc(p, 4000)\<close> returns \<open>p\<close> unchanged
  and the client owns 4000 bytes at \<open>p\<close>, which cover the head of the free list at
  \<open>0x10028\<close>.  After the client's stores into its own payload (the word at \<open>p + 24\<close>
  becomes 0, the word at \<open>p + 40\<close> becomes \<open>p + 48\<close>, the word at \<open>p + 48\<close> becomes 32)
  the next \<^verbatim>\<open>malloc(0)\<close> passes over the head, fits the word at \<open>p + 48\<close> and returns
  \<open>0x10048\<close>, which is 8 modulo 16, while the kernel would still grant the page a
  request of 32 bytes asks for.
\<close>

theorem malloc_zero_unaligned_after_resize_in_place:
  "ROUNDUP_CHUNK 0 = 32
   \<and> returned [Malloc 0] = Some [0x10010]
   \<and> word_after [Malloc 0] 0x10008 = Some 4081
   \<and> returned [Malloc 0, Realloc 0x10010 4000, Store 0x10028 0, Store 0x10038 0x10040,
                Store 0x10040 32, Malloc 0]
       = Some [0x10010, 0x10010, 0, 0, 0, 0x10048]
   \<and> map_option (list_all aligned16)
         (returned [Malloc 0, Realloc 0x10010 4000, Store 0x10028 0, Store 0x10038 0x10040,
                    Store 0x10040 32, Malloc 0])
       = Some False
   \<and> holds_after [Malloc 0, Realloc 0x10010 4000, Store 0x10028 0, Store 0x10038 0x10040,
                   Store 0x10040 32]
         (\<lambda>st. grow_bytes st (ROUNDUP_CHUNK 0) \<le> brk_room st) = Some True"
  by code_simp

end
